theory Spec2Isabelle
  imports Complex_Main "HOL-Library.Multiset"
begin

section \<open>The bingo sheet engine of qrbingo\<close>

text \<open>
  A shallow embedding of the class \<open>BingoSheet\<close>: sheet generation (\<open>arrayShuffle\<close>,
  \<open>getShuffledListWithLength\<close>, \<open>createSlot\<close>, \<open>init\<close>), matching and punching (\<open>hit\<close>,
  \<open>punch\<close>) and line detection (\<open>getBingo\<close> and its three scans).

  Conventions of the embedding.
  \<^item> JavaScript objects are values here. A sheet owns its grid, each cell holds its own
    slot object (\<open>init\<close> builds every cell with \<open>new BingoSlot\<close>), so a write to
    \<open>this.slots[y][x]\<close> is an update of the grid at row \<open>y\<close>, column \<open>x\<close>.
  \<^item> A method that can throw returns \<open>error + result\<close> together with the sheet as the
    throw leaves it: the writes made before a \<open>TypeError\<close> stay.
  \<^item> A list of slots that a method returns holds the slots as the method read them. In
    the source they are the grid's own objects, so after \<open>getBingo\<close> they show the marks
    that \<open>getBingo\<close> has set; the marks are read off the sheet here.
  \<^item> A loop that may run forever returns an \<open>option\<close>; \<open>None\<close> is "does not return".
  \<^item> Widths, heights, indices and coordinates are natural numbers.
  \<^item> Field names that are keywords or library constants are prefixed: \<open>value\<close> is
    \<open>slot_value\<close>, \<open>position.x\<close> is \<open>pos_x\<close>, the sheet's \<open>length\<close> is \<open>sheet_length\<close>.
\<close>

subsection \<open>Data model\<close>

datatype error = TypeError

record Position =
  pos_x :: nat
  pos_y :: nat

text \<open>
  Modelled from the spec: the interface \<open>IBingoSlotConfig\<close> (file \<open>slot\<close>) is not part of the
  sources at hand. A variation carries \<open>value\<close>, \<open>label\<close>, \<open>description\<close> and \<open>imageURL\<close>;
  the value is an opaque identifier compared with \<open>===\<close>, the other three are display
  metadata.
\<close>

record 'v IBingoSlotConfig =
  v_value :: 'v
  v_label :: string
  v_description :: string
  v_imageURL :: string

text \<open>
  Modelled from the spec: the class \<open>BingoSlot\<close> (file \<open>slot\<close>) is not part of the sources at
  hand. A slot has the four fields of its variation, a position, and the flags \<open>punched\<close>
  and \<open>bingo\<close>, which both start \<open>false\<close>.
\<close>

record 'v BingoSlot =
  slot_value :: 'v
  label :: string
  description :: string
  imageURL :: string
  position :: Position
  punched :: bool
  bingo :: bool

definition BingoSlot_new ::
  "'v \<Rightarrow> string \<Rightarrow> string \<Rightarrow> string \<Rightarrow> Position \<Rightarrow> 'v BingoSlot" where
  "BingoSlot_new v l d u p =
     \<lparr>slot_value = v, label = l, description = d, imageURL = u, position = p,
      punched = False, bingo = False\<rparr>"

record IBingoConfig_sheet =
  cfg_width :: nat
  cfg_height :: nat

record 'v IBingoConfig_slot =
  variations :: "'v IBingoSlotConfig list"

record 'v IBingoConfig =
  cfg_sheet :: IBingoConfig_sheet
  cfg_slot :: "'v IBingoConfig_slot"

record 'v BingoSheet =
  width :: nat
  height :: nat
  slots :: "'v BingoSlot list list"
  sheet_length :: nat
  initialized :: nat

text \<open>
  The constructor. \<open>props.date || new Date()\<close>: \<open>init\<close> passes no date, so the time stamp is
  the clock's reading \<open>now\<close>.
\<close>

definition BingoSheet_new :: "nat \<Rightarrow> nat \<Rightarrow> 'v BingoSlot list list \<Rightarrow> nat \<Rightarrow> 'v BingoSheet" where
  "BingoSheet_new w h sl now =
     \<lparr>width = w, height = h, slots = sl, sheet_length = w * h, initialized = now\<rparr>"

subsection \<open>Sheet generation\<close>

text \<open>
  \<open>Math.random\<close> is a source of numbers: \<open>rnd n\<close> is what its \<open>n\<close>-th call returns, and the
  generator threads the number \<open>k\<close> of calls made so far. Its contract is that every number
  lies in \<open>[0, 1)\<close>; then \<open>Math.floor(Math.random() * (i + 1))\<close> is an index in \<open>0..i\<close>.
  The product is taken over the reals; every index in \<open>0..i\<close> is the floor of such a
  product, so the sources within the contract cover every choice the shuffle can make.
\<close>

type_synonym random_source = "nat \<Rightarrow> real"

definition Math_random_contract :: "random_source \<Rightarrow> bool" where
  "Math_random_contract rnd = (\<forall>n. 0 \<le> rnd n \<and> rnd n < 1)"

text \<open>
  \<open>for (let i = arr.length - 1; i > 0; i--)\<close>, the first argument being \<open>i\<close>. On the empty
  array \<open>i\<close> starts at \<open>-1\<close> in the source and at \<open>0\<close> here; the body runs in neither.
  The destructuring swap reads both cells before it writes. Within the contract
  \<open>j \<le> i < arr.length\<close>, so every read and write of the swap is inside the array.
\<close>

fun arrayShuffle_loop :: "nat \<Rightarrow> 'a list \<Rightarrow> random_source \<Rightarrow> nat \<Rightarrow> 'a list \<times> nat" where
  "arrayShuffle_loop 0 arr rnd k = (arr, k)"
| "arrayShuffle_loop (Suc n) arr rnd k =
     (let i = Suc n;
          j = nat \<lfloor>rnd k * real (i + 1)\<rfloor>
      in arrayShuffle_loop n (arr[i := arr ! j, j := arr ! i]) rnd (Suc k))"

definition arrayShuffle :: "'a list \<Rightarrow> random_source \<Rightarrow> nat \<Rightarrow> 'a list \<times> nat" where
  "arrayShuffle arr rnd k = arrayShuffle_loop (length arr - 1) arr rnd k"

text \<open>
  \<open>while (dest.length < length) dest.push(...this.arrayShuffle(arr))\<close>. The shuffle works on
  \<open>arr\<close> itself, so the loop carries the array along with \<open>dest\<close>, and returns both.
\<close>

partial_function (option) getShuffledListWithLength_loop ::
  "'a list \<Rightarrow> nat \<Rightarrow> 'a list \<Rightarrow> random_source \<Rightarrow> nat \<Rightarrow> ('a list \<times> 'a list \<times> nat) option" where
  "getShuffledListWithLength_loop arr len dest rnd k =
     (if length dest < len
      then getShuffledListWithLength_loop (fst (arrayShuffle arr rnd k)) len
             (dest @ fst (arrayShuffle arr rnd k)) rnd (snd (arrayShuffle arr rnd k))
      else Some (dest, arr, k))"

declare getShuffledListWithLength_loop.simps [code]

definition getShuffledListWithLength ::
  "'a list \<Rightarrow> nat \<Rightarrow> random_source \<Rightarrow> nat \<Rightarrow> ('a list \<times> 'a list \<times> nat) option" where
  "getShuffledListWithLength arr len rnd k =
     (case getShuffledListWithLength_loop arr len [] rnd k of
        None \<Rightarrow> None
      | Some (dest, arr', k') \<Rightarrow> Some (take len dest, arr', k'))"

text \<open>
  \<open>createSlot\<close>: \<open>[index % width, Math.floor(index / width)]\<close>. It is only called with
  \<open>index < width * height\<close>, hence with a positive \<open>width\<close>.
\<close>

definition createSlot :: "'v IBingoSlotConfig \<Rightarrow> nat \<Rightarrow> nat \<Rightarrow> 'v BingoSlot" where
  "createSlot variation index w =
     BingoSlot_new (v_value variation) (v_label variation) (v_description variation)
       (v_imageURL variation) \<lparr>pos_x = index mod w, pos_y = index div w\<rparr>"

text \<open>
  The callback of \<open>init\<close>, run over the shuffled list with its indices:
  \<open>slots[slot.position.y].push(slot)\<close> throws a \<open>TypeError\<close> where the row does not exist.
\<close>

fun init_push ::
  "nat \<Rightarrow> ('v IBingoSlotConfig \<times> nat) list \<Rightarrow> 'v BingoSlot list list \<Rightarrow> error + 'v BingoSlot list list" where
  "init_push w [] sl = Inr sl"
| "init_push w ((v, i) # rest) sl =
     (let slot = createSlot v i w;
          y = pos_y (position slot)
      in if y < length sl then init_push w rest (sl[y := sl ! y @ [slot]])
         else Inl TypeError)"

text \<open>
  \<open>init\<close> returns the sheet (or the error thrown), the catalog array as generation leaves
  it, and the number of random numbers drawn; \<open>None\<close> when it does not return.
\<close>

definition init ::
  "'v IBingoConfig \<Rightarrow> random_source \<Rightarrow> nat \<Rightarrow> nat
    \<Rightarrow> ((error + 'v BingoSheet) \<times> 'v IBingoSlotConfig list \<times> nat) option" where
  "init config rnd k now =
     (let w = cfg_width (cfg_sheet config);
          h = cfg_height (cfg_sheet config);
          slots0 = replicate h [];
          len = w * h
      in case getShuffledListWithLength (variations (cfg_slot config)) len rnd k of
           None \<Rightarrow> None
         | Some (shuffled, arr', k') \<Rightarrow>
             (case init_push w (zip shuffled [0..<length shuffled]) slots0 of
                Inl e \<Rightarrow> Some (Inl e, arr', k')
              | Inr sl \<Rightarrow> Some (Inr (BingoSheet_new w h sl now), arr', k')))"

subsection \<open>Matching and punching\<close>

text \<open>
  Modelled from the spec: the type \<open>Payload\<close> (file \<open>qrcode\<close>) is not part of the sources at
  hand. A scan payload carries a \<open>value\<close>.
\<close>

record 'v Payload =
  payload_value :: 'v

text \<open>
  Every method returns its result, or the error it throws, and the sheet as it leaves it.
  \<open>hit\<close>: \<open>this.slots.flat().find(...)\<close>, with \<open>None\<close> for \<open>undefined\<close>.
\<close>

definition hit :: "'v BingoSheet \<Rightarrow> 'v Payload \<Rightarrow> 'v BingoSlot option \<times> 'v BingoSheet" where
  "hit s payload =
     (find (\<lambda>slot. slot_value slot = payload_value payload) (concat (slots s)), s)"

text \<open>
  Modelled from the spec: \<open>save\<close> belongs to the persistence library. It stores the
  sheet as the singleton and returns the saved instance.
\<close>

definition save :: "'v BingoSheet \<Rightarrow> 'v BingoSheet" where
  "save s = s"

text \<open>
  The callback of \<open>punch\<close>, run over the matching slots in turn:
  \<open>this.slots[y][x].punched = true\<close> with \<open>{x, y} = slot.position\<close>. Where the grid has no
  cell at \<open>(x, y)\<close> the write throws a \<open>TypeError\<close> and the earlier writes stay.
\<close>

fun punch_each :: "'v BingoSlot list \<Rightarrow> 'v BingoSheet \<Rightarrow> (error + unit) \<times> 'v BingoSheet" where
  "punch_each [] s = (Inr (), s)"
| "punch_each (slot # rest) s =
     (let x = pos_x (position slot); y = pos_y (position slot)
      in if y < length (slots s) \<and> x < length (slots s ! y)
         then punch_each rest
                (s\<lparr>slots := (slots s)[y := (slots s ! y)[x := (slots s ! y ! x)\<lparr>punched := True\<rparr>]]\<rparr>)
         else (Inl TypeError, s))"

definition punch :: "'v BingoSheet \<Rightarrow> 'v BingoSlot \<Rightarrow> (error + 'v BingoSheet) \<times> 'v BingoSheet" where
  "punch s hit_slot =
     (case punch_each
             (filter (\<lambda>slot. slot_value slot = slot_value hit_slot) (concat (slots s))) s of
        (Inl e, s') \<Rightarrow> (Inl e, s')
      | (Inr _, s') \<Rightarrow> (Inr (save s'), save s'))"

subsection \<open>Line detection\<close>

text \<open>Reading \<open>xs[i]\<close>: \<open>undefined\<close>, here \<open>None\<close>, outside the array.\<close>

definition at_index :: "'a list \<Rightarrow> int \<Rightarrow> 'a option" where
  "at_index xs i = (if 0 \<le> i \<and> i < int (length xs) then Some (xs ! nat i) else None)"

text \<open>
  \<open>xs.every(slot => slot.punched)\<close> over cells that were read by index: it stops with
  \<open>false\<close> at the first slot that is not punched, and throws a \<open>TypeError\<close> when it
  reaches an \<open>undefined\<close> cell before that.
\<close>

fun every_punched :: "'v BingoSlot option list \<Rightarrow> error + bool" where
  "every_punched [] = Inr True"
| "every_punched (None # rest) = Inl TypeError"
| "every_punched (Some slot # rest) = (if punched slot then every_punched rest else Inr False)"

text \<open>
  \<open>for (let row = 0; row < this.height; row++)\<close>; \<open>this.slots[row].every\<close> throws a
  \<open>TypeError\<close> when the grid has no such row.
\<close>

function getHorizontalBingo_loop :: "nat \<Rightarrow> 'v BingoSheet \<Rightarrow> error + 'v BingoSlot list" where
  "getHorizontalBingo_loop row s =
     (if row < height s
      then (if row < length (slots s)
            then (if list_all punched (slots s ! row) then Inr (slots s ! row)
                  else getHorizontalBingo_loop (row + 1) s)
            else Inl TypeError)
      else Inr [])"
  by pat_completeness auto
termination
  by (relation "measure (\<lambda>(row, s). height s - row)") auto

declare getHorizontalBingo_loop.simps [simp del]

definition getHorizontalBingo :: "'v BingoSheet \<Rightarrow> (error + 'v BingoSlot list) \<times> 'v BingoSheet" where
  "getHorizontalBingo s = (getHorizontalBingo_loop 0 s, s)"

text \<open>
  \<open>for (let col = 0; col < this.width; col++)\<close>. The column returned has passed \<open>every\<close>, so
  each of its cells is a slot.
\<close>

function getVerticalBingo_loop :: "nat \<Rightarrow> 'v BingoSheet \<Rightarrow> error + 'v BingoSlot list" where
  "getVerticalBingo_loop col s =
     (if col < width s
      then (case every_punched (map (\<lambda>row. at_index row (int col)) (slots s)) of
              Inl e \<Rightarrow> Inl e
            | Inr True \<Rightarrow> Inr (map the (map (\<lambda>row. at_index row (int col)) (slots s)))
            | Inr False \<Rightarrow> getVerticalBingo_loop (col + 1) s)
      else Inr [])"
  by pat_completeness auto
termination
  by (relation "measure (\<lambda>(col, s). width s - col)") auto

declare getVerticalBingo_loop.simps [simp del]

definition getVerticalBingo :: "'v BingoSheet \<Rightarrow> (error + 'v BingoSlot list) \<times> 'v BingoSheet" where
  "getVerticalBingo s = (getVerticalBingo_loop 0 s, s)"

text \<open>\<open>this.slots.map((row, i) => row[f(i)])\<close>.\<close>

definition map_rows :: "(nat \<Rightarrow> int) \<Rightarrow> 'a list list \<Rightarrow> 'a option list" where
  "map_rows f rows = map (\<lambda>(row, i). at_index row (f i)) (zip rows [0..<length rows])"

definition getDiagonalBingo :: "'v BingoSheet \<Rightarrow> (error + 'v BingoSlot list) \<times> 'v BingoSheet" where
  "getDiagonalBingo s =
     (if width s = height s
      then (let len = min (width s) (height s);
                backslash = map_rows (\<lambda>i. int i) (slots s)
            in case every_punched backslash of
                 Inl e \<Rightarrow> (Inl e, s)
               | Inr b1 \<Rightarrow>
                   (let bingo1 = (if b1 then [] @ map the backslash else []);
                        slash = map_rows (\<lambda>i. int len - int i - 1) (slots s)
                    in case every_punched slash of
                         Inl e \<Rightarrow> (Inl e, s)
                       | Inr b2 \<Rightarrow> (Inr (if b2 then bingo1 @ map the slash else bingo1), s)))
      else (Inr [], s))"

text \<open>
  \<open>markSlotsIfBingo\<close>: \<open>this.slots[slot.position.y][slot.position.x].bingo = true\<close> for each
  slot of the list in turn.
\<close>

fun markSlotsIfBingo :: "'v BingoSlot list \<Rightarrow> 'v BingoSheet \<Rightarrow> (error + unit) \<times> 'v BingoSheet" where
  "markSlotsIfBingo [] s = (Inr (), s)"
| "markSlotsIfBingo (slot # rest) s =
     (let x = pos_x (position slot); y = pos_y (position slot)
      in if y < length (slots s) \<and> x < length (slots s ! y)
         then markSlotsIfBingo rest
                (s\<lparr>slots := (slots s)[y := (slots s ! y)[x := (slots s ! y ! x)\<lparr>bingo := True\<rparr>]]\<rparr>)
         else (Inl TypeError, s))"

definition getBingo :: "'v BingoSheet \<Rightarrow> (error + 'v BingoSlot list) \<times> 'v BingoSheet" where
  "getBingo s =
     (case fst (getHorizontalBingo s) of
        Inl e \<Rightarrow> (Inl e, s)
      | Inr horizontal \<Rightarrow>
         (case fst (getVerticalBingo s) of
            Inl e \<Rightarrow> (Inl e, s)
          | Inr vertical \<Rightarrow>
             (case fst (getDiagonalBingo s) of
                Inl e \<Rightarrow> (Inl e, s)
              | Inr diagonal \<Rightarrow>
                 (let line_slots = (([] @ horizontal) @ vertical) @ diagonal
                  in case markSlotsIfBingo line_slots s of
                       (Inl e, s') \<Rightarrow> (Inl e, s')
                     | (Inr _, s') \<Rightarrow> (Inr line_slots, s')))))"

definition isBingo :: "'v BingoSheet \<Rightarrow> (error + bool) \<times> 'v BingoSheet" where
  "isBingo s =
     (case getBingo s of
        (Inl e, s') \<Rightarrow> (Inl e, s')
      | (Inr line_slots, s') \<Rightarrow> (Inr (length line_slots \<noteq> 0), s'))"

subsection \<open>The invariant of a sheet\<close>

text \<open>
  The grid has \<open>height\<close> rows of \<open>width\<close> slots, and the slot at row \<open>y\<close>, column \<open>x\<close> has the
  position \<open>(x, y)\<close>. Generation establishes it, \<open>punch\<close> and \<open>getBingo\<close> keep it.
\<close>

definition sheet_invariant :: "'v BingoSheet \<Rightarrow> bool" where
  "sheet_invariant s =
     (length (slots s) = height s \<and>
      (\<forall>y \<in> {0..<height s}. length (slots s ! y) = width s \<and>
         (\<forall>x \<in> {0..<width s}. position (slots s ! y ! x) = \<lparr>pos_x = x, pos_y = y\<rparr>)))"

subsection \<open>Notions used to state the properties\<close>

text \<open>The catalog entry a slot was created from.\<close>

definition variation_of :: "'v BingoSlot \<Rightarrow> 'v IBingoSlotConfig" where
  "variation_of slot =
     \<lparr>v_value = slot_value slot, v_label = label slot, v_description = description slot,
      v_imageURL = imageURL slot\<rparr>"

text \<open>
  The grid that \<open>init\<close> has built when the first \<open>n\<close> elements of the shuffled list are in
  place: row \<open>y\<close> holds the elements \<open>y * w, y * w + 1, ...\<close> that are among them.
\<close>

definition generated_grid ::
  "nat \<Rightarrow> nat \<Rightarrow> 'v IBingoSlotConfig list \<Rightarrow> nat \<Rightarrow> 'v BingoSlot list list" where
  "generated_grid w h shuffled n =
     map (\<lambda>y. map (\<lambda>x. createSlot (shuffled ! (y * w + x)) (y * w + x) w)
                [0..<min w (n - y * w)])
         [0..<h]"

text \<open>A slot with its \<open>punched\<close> flag set if its value is \<open>v\<close>.\<close>

definition punch_value :: "'v \<Rightarrow> 'v BingoSlot \<Rightarrow> 'v BingoSlot" where
  "punch_value v slot = (if slot_value slot = v then slot\<lparr>punched := True\<rparr> else slot)"

text \<open>
  No slot of \<open>s\<close> has a flag that is \<open>true\<close> in \<open>s\<close> and \<open>false\<close> in \<open>s'\<close>, the grids having
  the same shape.
\<close>

definition flags_kept :: "'v BingoSheet \<Rightarrow> 'v BingoSheet \<Rightarrow> bool" where
  "flags_kept s s' =
     (length (slots s') = length (slots s) \<and>
      (\<forall>y \<in> {0..<length (slots s)}. length (slots s' ! y) = length (slots s ! y) \<and>
         (\<forall>x \<in> {0..<length (slots s ! y)}.
            (punched (slots s ! y ! x) \<longrightarrow> punched (slots s' ! y ! x)) \<and>
            (bingo (slots s ! y ! x) \<longrightarrow> bingo (slots s' ! y ! x)))))"

text \<open>The lines of a grid: column \<open>c\<close>, the main diagonal and the anti-diagonal.\<close>

definition column :: "'v BingoSheet \<Rightarrow> nat \<Rightarrow> 'v BingoSlot list" where
  "column s c = map (\<lambda>row. row ! c) (slots s)"

definition main_diagonal :: "'v BingoSheet \<Rightarrow> 'v BingoSlot list" where
  "main_diagonal s = map (\<lambda>i. slots s ! i ! i) [0..<height s]"

definition anti_diagonal :: "'v BingoSheet \<Rightarrow> 'v BingoSlot list" where
  "anti_diagonal s = map (\<lambda>i. slots s ! i ! (height s - 1 - i)) [0..<height s]"

subsection \<open>Example inputs\<close>

definition prize :: "nat \<Rightarrow> nat IBingoSlotConfig" where
  "prize v = \<lparr>v_value = v, v_label = ''prize'', v_description = ''a prize'', v_imageURL = ''url''\<rparr>"

definition example_config :: "nat IBingoConfig" where
  "example_config =
     \<lparr>cfg_sheet = \<lparr>cfg_width = 2, cfg_height = 2\<rparr>,
      cfg_slot = \<lparr>variations = [prize 1, prize 2, prize 3]\<rparr>\<rparr>"

text \<open>A source of random numbers within the contract.\<close>

definition example_rnd :: random_source where
  "example_rnd n = (if even n then 1 / 2 else 0)"

text \<open>
  The sheet that the example generation returns: the values \<open>3, 1\<close> in row 0 and \<open>2, 2\<close> in
  row 1.
\<close>

definition example_sheet :: "nat BingoSheet" where
  "example_sheet =
     BingoSheet_new 2 2
       [[createSlot (prize 3) 0 2, createSlot (prize 1) 1 2],
        [createSlot (prize 2) 2 2, createSlot (prize 2) 3 2]] 0"

text \<open>The example sheet after the value \<open>2\<close> has been punched: row 1 is complete.\<close>

definition example_punched :: "nat BingoSheet" where
  "example_punched = snd (punch example_sheet (slots example_sheet ! 1 ! 0))"

text \<open>Then the value \<open>3\<close> is punched as well: column 0 is complete.\<close>

definition example_punched_twice :: "nat BingoSheet" where
  "example_punched_twice = snd (punch example_punched (slots example_sheet ! 0 ! 0))"

text \<open>
  A 3 x 3 sheet with the value \<open>1\<close> on both diagonals, that value punched; and a sheet
  of one row and two columns.
\<close>

definition example_square :: "nat BingoSheet" where
  "example_square =
     BingoSheet_new 3 3
       [[createSlot (prize 1) 0 3, createSlot (prize 2) 1 3, createSlot (prize 1) 2 3],
        [createSlot (prize 3) 3 3, createSlot (prize 1) 4 3, createSlot (prize 4) 5 3],
        [createSlot (prize 1) 6 3, createSlot (prize 5) 7 3, createSlot (prize 1) 8 3]] 0"

definition example_diagonals :: "nat BingoSheet" where
  "example_diagonals = snd (punch example_square (slots example_square ! 1 ! 1))"

definition example_wide :: "nat BingoSheet" where
  "example_wide =
     BingoSheet_new 2 1 [[createSlot (prize 1) 0 2, createSlot (prize 2) 1 2]] 0"

subsection \<open>Generation with an empty catalog\<close>

lemma arrayShuffle_Nil: "arrayShuffle [] rnd k = ([], k)"
  by (simp add: arrayShuffle_def)

lemma getShuffledListWithLength_loop_Nil_stuck:
  assumes "getShuffledListWithLength_loop arr len dest rnd k = Some r"
  shows "arr = [] \<longrightarrow> \<not> length dest < len"
  by (rule getShuffledListWithLength_loop.raw_induct [OF _ assms])
     (auto simp: arrayShuffle_Nil split: if_splits)

lemma getShuffledListWithLength_loop_Nil:
  "length dest < len \<Longrightarrow> getShuffledListWithLength_loop [] len dest rnd k = None"
  using getShuffledListWithLength_loop_Nil_stuck [of "[]" len dest rnd k]
  by (cases "getShuffledListWithLength_loop [] len dest rnd k") auto

text \<open>
  C1. With an empty catalog and a grid of at least one slot (a positive width \<open>Suc w\<close> and
  a positive height \<open>Suc h\<close>), the loop of \<open>getShuffledListWithLength\<close> appends nothing at
  each turn and never ends: generation does not return, neither a sheet nor an error.
\<close>

theorem init_empty_catalog_diverges:
  "init \<lparr>cfg_sheet = \<lparr>cfg_width = Suc w, cfg_height = Suc h\<rparr>,
         cfg_slot = \<lparr>variations = []\<rparr>\<rparr> rnd k now = None"
  by (simp add: init_def getShuffledListWithLength_def getShuffledListWithLength_loop_Nil)

subsection \<open>The shuffle and the filling loop\<close>

lemma random_index_le:
  assumes "Math_random_contract rnd"
  shows "nat \<lfloor>rnd k * real (Suc n)\<rfloor> \<le> n"
proof -
  from assms have r: "0 \<le> rnd k" "rnd k < 1"
    by (auto simp: Math_random_contract_def)
  then have "rnd k * real (Suc n) < real (Suc n)"
    by simp
  then have "\<lfloor>rnd k * real (Suc n)\<rfloor> < int (Suc n)"
    by (simp add: floor_less_iff)
  then show ?thesis by linarith
qed

lemma arrayShuffle_loop_mset:
  "Math_random_contract rnd \<Longrightarrow> n < length arr \<Longrightarrow>
     mset (fst (arrayShuffle_loop n arr rnd k)) = mset arr"
proof (induction n arbitrary: arr k)
  case 0
  then show ?case by simp
next
  case (Suc n)
  let ?j = "nat \<lfloor>rnd k * real (Suc (Suc n))\<rfloor>"
  from Suc.prems have j: "?j < length arr"
    using random_index_le [of rnd k "Suc n"] by simp
  have "mset (arr[Suc n := arr ! ?j, ?j := arr ! Suc n]) = mset arr"
    using Suc.prems(2) j by (simp add: mset_swap)
  with Suc show ?case by (simp add: Let_def)
qed

lemma arrayShuffle_loop_calls: "snd (arrayShuffle_loop n arr rnd k) = k + n"
  by (induction n arbitrary: arr k) (simp_all add: Let_def)

lemma arrayShuffle_mset:
  "Math_random_contract rnd \<Longrightarrow> mset (fst (arrayShuffle arr rnd k)) = mset arr"
  by (cases "arr = []") (simp_all add: arrayShuffle_def arrayShuffle_loop_mset)

lemma getShuffledListWithLength_loop_returns:
  assumes "Math_random_contract rnd" and "catalog \<noteq> []"
  shows "mset arr = mset catalog \<Longrightarrow> \<forall>b \<in> set blocks. mset b = mset catalog \<Longrightarrow>
     \<exists>blocks' arr' k'.
        getShuffledListWithLength_loop arr len (concat blocks) rnd k
          = Some (concat blocks', arr', k') \<and>
        (\<forall>b \<in> set blocks'. mset b = mset catalog) \<and> mset arr' = mset catalog \<and>
        len \<le> length (concat blocks')"
proof (induction "len - length (concat blocks)" arbitrary: arr blocks k rule: less_induct)
  case less
  show ?case
  proof (cases "length (concat blocks) < len")
    case False
    then show ?thesis
      using less.prems
      by (subst getShuffledListWithLength_loop.simps) auto
  next
    case True
    let ?arr = "fst (arrayShuffle arr rnd k)"
    have m: "mset ?arr = mset catalog"
      using assms(1) less.prems(1) by (simp add: arrayShuffle_mset)
    then have "size (mset ?arr) = size (mset catalog)" by simp
    with assms(2) have pos: "0 < length ?arr" by simp
    have blocks: "\<forall>b \<in> set (blocks @ [?arr]). mset b = mset catalog"
      using less.prems(2) m by simp
    have "len - length (concat (blocks @ [?arr])) < len - length (concat blocks)"
      using True pos by (simp del: length_greater_0_conv)
    from less.hyps [OF this m blocks, of "snd (arrayShuffle arr rnd k)"]
    show ?thesis
      using True by (subst getShuffledListWithLength_loop.simps) simp
  qed
qed

lemma count_take_blocks:
  "\<forall>b \<in> set blocks. mset b = M \<Longrightarrow> 0 < size M \<Longrightarrow> len \<le> length (concat blocks) \<Longrightarrow>
     (len div size M) * count M e \<le> count (mset (take len (concat blocks))) e"
proof (induction blocks arbitrary: len)
  case Nil
  then show ?case by simp
next
  case (Cons b blocks)
  from Cons.prems have b: "mset b = M" by simp
  then have lb: "length b = size M" by (metis size_mset)
  show ?case
  proof (cases "len < size M")
    case True
    then show ?thesis by simp
  next
    case False
    then have d: "len div size M = Suc ((len - size M) div size M)"
      using Cons.prems(2) by (simp add: le_div_geq)
    have "((len - size M) div size M) * count M e
            \<le> count (mset (take (len - size M) (concat blocks))) e"
      using Cons.prems lb by (intro Cons.IH) auto
    then show ?thesis
      using False lb b d by (simp add: not_less)
  qed
qed

subsection \<open>Filling the grid\<close>

lemma generated_grid_0: "generated_grid w h shuffled 0 = replicate h []"
  by (simp add: generated_grid_def map_replicate_const)

lemma length_generated_grid: "length (generated_grid w h shuffled n) = h"
  by (simp add: generated_grid_def)

lemma row_fill_other:
  assumes "0 < w" and "y \<noteq> n div w"
  shows "min w (Suc n - y * w) = min w (n - y * w)"
proof (cases "y < n div w")
  case True
  then have "Suc y * w \<le> (n div w) * w"
    by (intro mult_le_mono1) simp
  also have "\<dots> \<le> n" by simp
  finally have "y * w + w \<le> n" by simp
  then show ?thesis by simp
next
  case False
  with assms(2) have "Suc (n div w) * w \<le> y * w"
    by (intro mult_le_mono1) simp
  moreover have "n < Suc (n div w) * w"
    using assms(1) by (simp add: dividend_less_div_times)
  ultimately show ?thesis by simp
qed

lemma row_fill_this: "n - (n div w) * w = n mod (w::nat)"
  by (rule minus_div_mult_eq_mod)

lemma generated_grid_push:
  assumes "n < w * h"
  shows "(generated_grid w h shuffled n)
           [n div w := generated_grid w h shuffled n ! (n div w) @ [createSlot (shuffled ! n) n w]]
         = generated_grid w h shuffled (Suc n)"
proof (rule nth_equalityI)
  show "length ((generated_grid w h shuffled n)
           [n div w := generated_grid w h shuffled n ! (n div w) @ [createSlot (shuffled ! n) n w]])
        = length (generated_grid w h shuffled (Suc n))"
    by (simp add: length_generated_grid)
next
  fix y
  assume "y < length ((generated_grid w h shuffled n)
           [n div w := generated_grid w h shuffled n ! (n div w) @ [createSlot (shuffled ! n) n w]])"
  then have y: "y < h" by (simp add: length_generated_grid)
  from assms have w: "0 < w" by (cases w) auto
  from assms have d: "n div w < h"
    by (simp add: less_mult_imp_div_less mult.commute)
  show "(generated_grid w h shuffled n)
           [n div w := generated_grid w h shuffled n ! (n div w) @ [createSlot (shuffled ! n) n w]] ! y
        = generated_grid w h shuffled (Suc n) ! y"
  proof (cases "y = n div w")
    case True
    have m: "n mod w < w" using w by simp
    have s: "Suc n - (n div w) * w = Suc (n mod w)"
      using row_fill_this [of n w] by (simp add: Suc_diff_le)
    have "min w (Suc (n mod w)) = Suc (n mod w)" using m by simp
    then show ?thesis
      using True d m s row_fill_this [of n w]
      by (simp add: generated_grid_def)
  next
    case False
    then show ?thesis
      using y row_fill_other [OF w False]
      by (simp add: generated_grid_def length_generated_grid)
  qed
qed

lemma init_push_grid:
  "n \<le> w * h \<Longrightarrow> length shuffled = w * h \<Longrightarrow>
     init_push w (zip (drop n shuffled) [n..<w * h]) (generated_grid w h shuffled n)
       = Inr (generated_grid w h shuffled (w * h))"
proof (induction "w * h - n" arbitrary: n)
  case 0
  then show ?case by simp
next
  case (Suc m)
  then have n: "n < w * h" by simp
  then have d: "n div w < h"
    by (simp add: less_mult_imp_div_less mult.commute)
  have "drop n shuffled = shuffled ! n # drop (Suc n) shuffled"
    using n Suc.prems(2) by (simp add: Cons_nth_drop_Suc)
  moreover have "[n..<w * h] = n # [Suc n..<w * h]"
    using n by (simp add: upt_conv_Cons)
  moreover have "init_push w (zip (drop (Suc n) shuffled) [Suc n..<w * h])
                   (generated_grid w h shuffled (Suc n))
                 = Inr (generated_grid w h shuffled (w * h))"
    using Suc.hyps(2) n Suc.prems(2) by (intro Suc.hyps(1)) simp_all
  ultimately show ?case
    using d generated_grid_push [OF n, of shuffled]
    by (simp add: Let_def length_generated_grid createSlot_def BingoSlot_new_def)
qed

lemma generated_grid_full:
  "generated_grid w h shuffled (w * h)
     = map (\<lambda>y. map (\<lambda>x. createSlot (shuffled ! (y * w + x)) (y * w + x) w) [0..<w]) [0..<h]"
proof -
  have "min w (w * h - y * w) = w" if "y < h" for y
  proof -
    from that have "Suc y * w \<le> h * w" by (intro mult_le_mono1) simp
    then show ?thesis by (simp add: mult.commute)
  qed
  then show ?thesis by (simp add: generated_grid_def)
qed

lemma generated_grid_nth:
  "y < h \<Longrightarrow> x < w \<Longrightarrow>
     generated_grid w h shuffled (w * h) ! y ! x
       = createSlot (shuffled ! (y * w + x)) (y * w + x) w"
  by (simp add: generated_grid_full)

lemma generated_grid_row: "y < h \<Longrightarrow> length (generated_grid w h shuffled (w * h) ! y) = w"
  by (simp add: generated_grid_full)

lemma map_upt_shift: "map f [a..<a + w] = map (\<lambda>x. f (a + x)) [0..<w]"
proof -
  have "[a..<a + w] = map (\<lambda>i. i + a) [0..<w]"
    by (simp only: map_add_upt add.commute [of a w])
  then show ?thesis by (simp add: comp_def add.commute)
qed

lemma concat_rows: "concat (map (\<lambda>y. map (\<lambda>x. f (y * w + x)) [0..<w]) [0..<h]) = map f [0..<w * h]"
proof (induction h)
  case 0
  then show ?case by simp
next
  case (Suc h)
  have "[0..<w * h + w] = [0..<w * h] @ [w * h..<w * h + w]"
    by (rule upt_add_eq_append) simp
  then have "map f [0..<w * h + w] = map f [0..<w * h] @ map f [w * h..<w * h + w]"
    by simp
  also have "map f [w * h..<w * h + w] = map (\<lambda>x. f (h * w + x)) [0..<w]"
    by (simp only: map_upt_shift mult.commute [of w h])
  finally have "map f [0..<w * Suc h] = map f [0..<w * h] @ map (\<lambda>x. f (h * w + x)) [0..<w]"
    by (simp add: add.commute)
  with Suc show ?case by simp
qed

lemma concat_generated_grid:
  "concat (generated_grid w h shuffled (w * h))
     = map (\<lambda>i. createSlot (shuffled ! i) i w) [0..<w * h]"
  by (simp add: generated_grid_full concat_rows [where f = "\<lambda>i. createSlot (shuffled ! i) i w"])

lemma variation_of_createSlot: "variation_of (createSlot v i w) = v"
  by (simp add: variation_of_def createSlot_def BingoSlot_new_def)

lemma variations_generated_grid:
  "length shuffled = w * h \<Longrightarrow>
     map variation_of (concat (generated_grid w h shuffled (w * h))) = shuffled"
  using map_nth [of shuffled]
  by (simp add: concat_generated_grid variation_of_createSlot comp_def)

lemma position_createSlot:
  "x < w \<Longrightarrow> position (createSlot v (y * w + x) w) = \<lparr>pos_x = x, pos_y = y\<rparr>"
  by (simp add: createSlot_def BingoSlot_new_def)

subsection \<open>Generated sheets\<close>

lemma getShuffledListWithLength_returns:
  assumes "Math_random_contract rnd" and "catalog \<noteq> []"
  shows "\<exists>blocks arr' k'.
           getShuffledListWithLength catalog len rnd k = Some (take len (concat blocks), arr', k') \<and>
           (\<forall>b \<in> set blocks. mset b = mset catalog) \<and> mset arr' = mset catalog \<and>
           len \<le> length (concat blocks)"
proof -
  from getShuffledListWithLength_loop_returns [OF assms, of catalog "[]" len k]
  obtain blocks arr' k' where
    "getShuffledListWithLength_loop catalog len [] rnd k = Some (concat blocks, arr', k')"
    "\<forall>b \<in> set blocks. mset b = mset catalog" "mset arr' = mset catalog"
    "len \<le> length (concat blocks)"
    by auto
  then show ?thesis
    by (auto simp: getShuffledListWithLength_def)
qed

lemma init_generated_grid:
  assumes "getShuffledListWithLength (variations (cfg_slot config))
             (cfg_width (cfg_sheet config) * cfg_height (cfg_sheet config)) rnd k
           = Some (shuffled, arr', k')"
    and "length shuffled = cfg_width (cfg_sheet config) * cfg_height (cfg_sheet config)"
  shows "init config rnd k now
         = Some (Inr (BingoSheet_new (cfg_width (cfg_sheet config)) (cfg_height (cfg_sheet config))
                    (generated_grid (cfg_width (cfg_sheet config)) (cfg_height (cfg_sheet config))
                       shuffled (cfg_width (cfg_sheet config) * cfg_height (cfg_sheet config)))
                    now), arr', k')"
  using assms
    init_push_grid [of 0 "cfg_width (cfg_sheet config)" "cfg_height (cfg_sheet config)" shuffled]
  by (simp add: init_def generated_grid_0 Let_def)

lemma sheet_invariant_generated:
  "sheet_invariant (BingoSheet_new w h (generated_grid w h shuffled (w * h)) now)"
  by (simp add: sheet_invariant_def BingoSheet_new_def length_generated_grid
        generated_grid_row generated_grid_nth position_createSlot)

lemma count_filter_variation:
  "length (filter (\<lambda>slot. variation_of slot = e) xs) = count (mset (map variation_of xs)) e"
  by (induction xs) auto

text \<open>
  C2. For a catalog that is not empty and random numbers in \<open>[0, 1)\<close>, generation returns
  a sheet; its grid holds exactly \<open>width * height\<close> slots, and for each catalog entry at
  least \<open>(width * height) div c\<close> of these slots were created from it, \<open>c\<close> being the size
  of the catalog.
\<close>

theorem init_coverage:
  assumes "Math_random_contract rnd" and "variations (cfg_slot config) \<noteq> []"
  shows "\<exists>sheet arr' k'.
           init config rnd k now = Some (Inr sheet, arr', k') \<and>
           length (concat (slots sheet))
             = cfg_width (cfg_sheet config) * cfg_height (cfg_sheet config) \<and>
           (\<forall>e \<in> set (variations (cfg_slot config)).
              (cfg_width (cfg_sheet config) * cfg_height (cfg_sheet config))
                div length (variations (cfg_slot config))
              \<le> length (filter (\<lambda>slot. variation_of slot = e) (concat (slots sheet))))"
proof -
  let ?w = "cfg_width (cfg_sheet config)" and ?h = "cfg_height (cfg_sheet config)"
  let ?catalog = "variations (cfg_slot config)"
  from getShuffledListWithLength_returns [OF assms, of "?w * ?h" k]
  obtain blocks arr' k' where
    g: "getShuffledListWithLength ?catalog (?w * ?h) rnd k
          = Some (take (?w * ?h) (concat blocks), arr', k')"
    and b: "\<forall>b \<in> set blocks. mset b = mset ?catalog"
    and l: "?w * ?h \<le> length (concat blocks)"
    by blast
  let ?shuffled = "take (?w * ?h) (concat blocks)"
  let ?sheet = "BingoSheet_new ?w ?h (generated_grid ?w ?h ?shuffled (?w * ?h)) now"
  have len: "length ?shuffled = ?w * ?h" using l by simp
  have i: "init config rnd k now = Some (Inr ?sheet, arr', k')"
    by (rule init_generated_grid [OF g len])
  have v: "map variation_of (concat (slots ?sheet)) = ?shuffled"
    using variations_generated_grid [OF len] by (simp add: BingoSheet_new_def)
  have n: "length (concat (slots ?sheet)) = ?w * ?h"
    using arg_cong [OF v, of length] len by (simp del: length_take)
  have c: "(?w * ?h) div length ?catalog
             \<le> length (filter (\<lambda>slot. variation_of slot = e) (concat (slots ?sheet)))"
    if e: "e \<in> set ?catalog" for e
  proof -
    have pos: "0 < size (mset ?catalog)" using assms(2) by simp
    from e have "1 \<le> count (mset ?catalog) e" by (simp add: Suc_le_eq)
    then have "(?w * ?h) div size (mset ?catalog)
                 \<le> ((?w * ?h) div size (mset ?catalog)) * count (mset ?catalog) e"
      by simp
    also have "\<dots> \<le> count (mset ?shuffled) e"
      by (rule count_take_blocks [OF b pos l])
    finally show ?thesis
      by (simp only: count_filter_variation v size_mset)
  qed
  from i n c show ?thesis by blast
qed

lemma example_rnd_contract: "Math_random_contract example_rnd"
  by (simp add: Math_random_contract_def example_rnd_def)

theorem init_coverage_witness:
  "Math_random_contract example_rnd \<and> variations (cfg_slot example_config) \<noteq> [] \<and>
   (\<exists>sheet arr' k'.
      init example_config example_rnd 0 0 = Some (Inr sheet, arr', k') \<and>
      length (concat (slots sheet)) = 4 \<and>
      (\<forall>e \<in> set [prize 1, prize 2, prize 3].
         1 \<le> length (filter (\<lambda>slot. variation_of slot = e) (concat (slots sheet)))))"
  using init_coverage [of example_rnd example_config 0 0]
  by (simp add: example_rnd_contract example_config_def)

text \<open>
  C8. For a catalog that is not empty and random numbers in \<open>[0, 1)\<close>, generation returns
  a sheet that satisfies the invariant of sheets: \<open>height\<close> rows of \<open>width\<close> slots each, the
  slot at row \<open>y\<close>, column \<open>x\<close> having the position \<open>(x, y)\<close>. The slot at row \<open>i div width\<close>,
  column \<open>i mod width\<close> is the one created from the \<open>i\<close>-th element of the list that
  \<open>getShuffledListWithLength\<close> returned, and its position is \<open>(i mod width, i div width)\<close>.
\<close>

theorem init_positions:
  assumes "Math_random_contract rnd" and "variations (cfg_slot config) \<noteq> []"
  shows "\<exists>shuffled sheet arr' k'.
           getShuffledListWithLength (variations (cfg_slot config))
             (cfg_width (cfg_sheet config) * cfg_height (cfg_sheet config)) rnd k
             = Some (shuffled, arr', k') \<and>
           init config rnd k now = Some (Inr sheet, arr', k') \<and>
           width sheet = cfg_width (cfg_sheet config) \<and>
           height sheet = cfg_height (cfg_sheet config) \<and>
           length (slots sheet) = height sheet \<and>
           (\<forall>y < height sheet. length (slots sheet ! y) = width sheet \<and>
              (\<forall>x < width sheet. position (slots sheet ! y ! x) = \<lparr>pos_x = x, pos_y = y\<rparr>)) \<and>
           (\<forall>i < width sheet * height sheet.
              slots sheet ! (i div width sheet) ! (i mod width sheet)
                = createSlot (shuffled ! i) i (width sheet) \<and>
              position (slots sheet ! (i div width sheet) ! (i mod width sheet))
                = \<lparr>pos_x = i mod width sheet, pos_y = i div width sheet\<rparr>)"
proof -
  let ?w = "cfg_width (cfg_sheet config)" and ?h = "cfg_height (cfg_sheet config)"
  let ?catalog = "variations (cfg_slot config)"
  from getShuffledListWithLength_returns [OF assms, of "?w * ?h" k]
  obtain blocks arr' k' where
    g: "getShuffledListWithLength ?catalog (?w * ?h) rnd k
          = Some (take (?w * ?h) (concat blocks), arr', k')"
    and l: "?w * ?h \<le> length (concat blocks)"
    by blast
  let ?shuffled = "take (?w * ?h) (concat blocks)"
  let ?sheet = "BingoSheet_new ?w ?h (generated_grid ?w ?h ?shuffled (?w * ?h)) now"
  have len: "length ?shuffled = ?w * ?h" using l by simp
  have i: "init config rnd k now = Some (Inr ?sheet, arr', k')"
    by (rule init_generated_grid [OF g len])
  have dims: "width ?sheet = ?w" "height ?sheet = ?h" "length (slots ?sheet) = height ?sheet"
    by (simp_all add: BingoSheet_new_def length_generated_grid)
  have rows: "length (slots ?sheet ! y) = width ?sheet \<and>
              (\<forall>x < width ?sheet. position (slots ?sheet ! y ! x) = \<lparr>pos_x = x, pos_y = y\<rparr>)"
    if "y < height ?sheet" for y
    using that
    by (simp add: BingoSheet_new_def generated_grid_row generated_grid_nth position_createSlot)
  have cells: "slots ?sheet ! (i div width ?sheet) ! (i mod width ?sheet)
                 = createSlot (?shuffled ! i) i (width ?sheet) \<and>
               position (slots ?sheet ! (i div width ?sheet) ! (i mod width ?sheet))
                 = \<lparr>pos_x = i mod width ?sheet, pos_y = i div width ?sheet\<rparr>"
    if "i < width ?sheet * height ?sheet" for i
  proof -
    from that have i: "i < ?w * ?h" by (simp add: BingoSheet_new_def)
    then have w: "0 < ?w" by (cases ?w) auto
    from i have y: "i div ?w < ?h" by (simp add: less_mult_imp_div_less mult.commute)
    have x: "i mod ?w < ?w" using w by simp
    have "generated_grid ?w ?h ?shuffled (?w * ?h) ! (i div ?w) ! (i mod ?w)
            = createSlot (?shuffled ! i) i ?w"
      using generated_grid_nth [OF y x, of ?shuffled] by simp
    then show ?thesis
      by (simp add: BingoSheet_new_def createSlot_def BingoSlot_new_def)
  qed
  from g i dims rows cells show ?thesis by blast
qed


lemma init_example:
  "init example_config example_rnd 0 now
     = Some (Inr (BingoSheet_new 2 2
                    [[createSlot (prize 3) 0 2, createSlot (prize 1) 1 2],
                     [createSlot (prize 2) 2 2, createSlot (prize 2) 3 2]] now),
             [prize 2, prize 3, prize 1], 4)"
  by code_simp

text \<open>
  C10. Generation shuffles the caller's catalog array itself: for a catalog that is not
  empty and random numbers in \<open>[0, 1)\<close>, \<open>init\<close> returns, and the array as it leaves it
  holds the same elements, each as often as before. Their order may have changed: the
  example generation leaves the catalog \<open>1, 2, 3\<close> in the order \<open>2, 3, 1\<close>.
\<close>

theorem init_permutes_catalog:
  "(Math_random_contract rnd \<and> variations (cfg_slot config) \<noteq> [] \<longrightarrow>
      (\<exists>result arr' k'. init config rnd k now = Some (result, arr', k') \<and>
         mset arr' = mset (variations (cfg_slot config)))) \<and>
   (Math_random_contract example_rnd \<and>
      (\<exists>result k'. init example_config example_rnd 0 0
                      = Some (result, [prize 2, prize 3, prize 1], k')) \<and>
      variations (cfg_slot example_config) = [prize 1, prize 2, prize 3])"
proof (intro conjI impI)
  assume a: "Math_random_contract rnd \<and> variations (cfg_slot config) \<noteq> []"
  let ?w = "cfg_width (cfg_sheet config)" and ?h = "cfg_height (cfg_sheet config)"
  from a getShuffledListWithLength_returns [of rnd "variations (cfg_slot config)" "?w * ?h" k]
  obtain blocks arr' k' where
    g: "getShuffledListWithLength (variations (cfg_slot config)) (?w * ?h) rnd k
          = Some (take (?w * ?h) (concat blocks), arr', k')"
    and m: "mset arr' = mset (variations (cfg_slot config))"
    and l: "?w * ?h \<le> length (concat blocks)"
    by blast
  have "length (take (?w * ?h) (concat blocks)) = ?w * ?h" using l by simp
  from init_generated_grid [OF g this, of now] m
  show "\<exists>result arr' k'. init config rnd k now = Some (result, arr', k') \<and>
          mset arr' = mset (variations (cfg_slot config))"
    by blast
next
  show "Math_random_contract example_rnd" by (rule example_rnd_contract)
next
  show "\<exists>result k'. init example_config example_rnd 0 0
                      = Some (result, [prize 2, prize 3, prize 1], k')"
    by (simp add: init_example)
next
  show "variations (cfg_slot example_config) = [prize 1, prize 2, prize 3]"
    by (simp add: example_config_def)
qed

theorem init_permutes_catalog_witness:
  "Math_random_contract example_rnd \<and> variations (cfg_slot example_config) \<noteq> [] \<and>
   (\<exists>result arr' k'. init example_config example_rnd 0 0 = Some (result, arr', k') \<and>
      mset arr' = mset [prize 1, prize 2, prize 3])"
  using init_permutes_catalog [of example_rnd example_config 0 0]
  by (simp add: example_rnd_contract example_config_def)

theorem init_positions_witness:
  "Math_random_contract example_rnd \<and> variations (cfg_slot example_config) \<noteq> [] \<and>
   (\<exists>shuffled sheet arr' k'.
      getShuffledListWithLength [prize 1, prize 2, prize 3] 4 example_rnd 0
        = Some (shuffled, arr', k') \<and>
      init example_config example_rnd 0 0 = Some (Inr sheet, arr', k') \<and>
      width sheet = 2 \<and> height sheet = 2 \<and> length (slots sheet) = height sheet \<and>
      (\<forall>y < height sheet. length (slots sheet ! y) = width sheet \<and>
         (\<forall>x < width sheet. position (slots sheet ! y ! x) = \<lparr>pos_x = x, pos_y = y\<rparr>)) \<and>
      (\<forall>i < width sheet * height sheet.
         slots sheet ! (i div width sheet) ! (i mod width sheet)
           = createSlot (shuffled ! i) i (width sheet) \<and>
         position (slots sheet ! (i div width sheet) ! (i mod width sheet))
           = \<lparr>pos_x = i mod width sheet, pos_y = i div width sheet\<rparr>))"
  using init_positions [of example_rnd example_config 0 0]
  by (simp add: example_rnd_contract example_config_def)

subsection \<open>Punching\<close>

lemma in_concat_nth:
  "t \<in> set (concat g) \<longleftrightarrow> (\<exists>y < length g. \<exists>x < length (g ! y). t = g ! y ! x)"
proof
  assume "t \<in> set (concat g)"
  then obtain row where "row \<in> set g" "t \<in> set row" by auto
  then obtain y x where "y < length g" "row = g ! y" "x < length row" "t = row ! x"
    by (metis in_set_conv_nth)
  then show "\<exists>y < length g. \<exists>x < length (g ! y). t = g ! y ! x" by blast
next
  assume "\<exists>y < length g. \<exists>x < length (g ! y). t = g ! y ! x"
  then obtain y x where "y < length g" "x < length (g ! y)" "t = g ! y ! x" by blast
  then have "g ! y \<in> set g" "t \<in> set (g ! y)" by simp_all
  then show "t \<in> set (concat g)" by auto
qed

lemma grid_update_row_length:
  "length (g[y := (g ! y)[x := v]] ! y') = length (g ! y')"
  by (cases "y' = y"; cases "y < length g") (simp_all add: list_update_beyond)

lemma grid_update_nth:
  "y < length g \<Longrightarrow> x < length (g ! y) \<Longrightarrow>
     g[y := (g ! y)[x := v]] ! y' ! x' = (if y' = y \<and> x' = x then v else g ! y' ! x')"
  by (cases "y' = y"; cases "x' = x") simp_all

lemma punch_each_cells:
  "\<forall>t \<in> set ts. pos_y (position t) < length (slots s) \<and>
       pos_x (position t) < length (slots s ! pos_y (position t)) \<Longrightarrow>
   \<exists>s'. punch_each ts s = (Inr (), s') \<and>
     width s' = width s \<and> height s' = height s \<and> sheet_length s' = sheet_length s \<and>
     initialized s' = initialized s \<and>
     length (slots s') = length (slots s) \<and>
     (\<forall>y < length (slots s). length (slots s' ! y) = length (slots s ! y) \<and>
        (\<forall>x < length (slots s ! y).
           slots s' ! y ! x
             = (if \<lparr>pos_x = x, pos_y = y\<rparr> \<in> position ` set ts
                then (slots s ! y ! x)\<lparr>punched := True\<rparr> else slots s ! y ! x)))"
proof (induction ts arbitrary: s)
  case Nil
  then show ?case by simp
next
  case (Cons t ts)
  let ?x = "pos_x (position t)" and ?y = "pos_y (position t)"
  let ?s1 = "s\<lparr>slots := (slots s)[?y := (slots s ! ?y)[?x := (slots s ! ?y ! ?x)\<lparr>punched := True\<rparr>]]\<rparr>"
  from Cons.prems have r: "?y < length (slots s)" "?x < length (slots s ! ?y)"
    by simp_all
  have shape: "length (slots ?s1) = length (slots s)"
    "\<And>y. length (slots ?s1 ! y) = length (slots s ! y)"
    by (simp_all add: grid_update_row_length)
  have "\<forall>u \<in> set ts. pos_y (position u) < length (slots ?s1) \<and>
          pos_x (position u) < length (slots ?s1 ! pos_y (position u))"
    using Cons.prems unfolding shape by simp
  from Cons.IH [OF this] obtain s' where
    p: "punch_each ts ?s1 = (Inr (), s')"
    and f: "width s' = width s" "height s' = height s" "sheet_length s' = sheet_length s"
       "initialized s' = initialized s"
    and l: "length (slots s') = length (slots ?s1)"
    and c: "\<forall>y < length (slots ?s1). length (slots s' ! y) = length (slots ?s1 ! y) \<and>
        (\<forall>x < length (slots ?s1 ! y).
           slots s' ! y ! x
             = (if \<lparr>pos_x = x, pos_y = y\<rparr> \<in> position ` set ts
                then (slots ?s1 ! y ! x)\<lparr>punched := True\<rparr> else slots ?s1 ! y ! x))"
    by auto
  have e: "punch_each (t # ts) s = (Inr (), s')"
    using r p by (simp add: Let_def)
  have cells: "slots s' ! y ! x
             = (if \<lparr>pos_x = x, pos_y = y\<rparr> \<in> position ` set (t # ts)
                then (slots s ! y ! x)\<lparr>punched := True\<rparr> else slots s ! y ! x)"
    if y: "y < length (slots s)" and x: "x < length (slots s ! y)" for y x
  proof -
    have eq: "\<lparr>pos_x = x, pos_y = y\<rparr> = position t \<longleftrightarrow> y = ?y \<and> x = ?x"
      by (cases "position t") auto
    have one: "slots ?s1 ! y ! x
        = (if \<lparr>pos_x = x, pos_y = y\<rparr> = position t
           then (slots s ! y ! x)\<lparr>punched := True\<rparr> else slots s ! y ! x)"
      using r by (simp add: grid_update_nth eq)
    from c y x have two: "slots s' ! y ! x
             = (if \<lparr>pos_x = x, pos_y = y\<rparr> \<in> position ` set ts
                then (slots ?s1 ! y ! x)\<lparr>punched := True\<rparr> else slots ?s1 ! y ! x)"
      unfolding shape by simp
    from one two show ?thesis by (cases "\<lparr>pos_x = x, pos_y = y\<rparr> = position t") auto
  qed
  have rows: "length (slots s' ! y) = length (slots s ! y)" if "y < length (slots s)" for y
    using c that unfolding shape by simp
  have l': "length (slots s') = length (slots s)"
    using l unfolding shape .
  show ?case
    by (rule exI [of _ s'], rule conjI, rule e) (simp add: f l' rows cells)
qed

lemma sheet_invariantD:
  assumes "sheet_invariant s"
  shows "length (slots s) = height s"
    and "y < height s \<Longrightarrow> length (slots s ! y) = width s"
    and "y < height s \<Longrightarrow> x < width s \<Longrightarrow> position (slots s ! y ! x) = \<lparr>pos_x = x, pos_y = y\<rparr>"
  using assms by (simp_all add: sheet_invariant_def)

lemma sheet_invariant_slot:
  assumes "sheet_invariant s" and "t \<in> set (concat (slots s))"
  shows "\<exists>y < height s. \<exists>x < width s. t = slots s ! y ! x \<and> position t = \<lparr>pos_x = x, pos_y = y\<rparr>"
proof -
  from assms(2) [unfolded in_concat_nth] obtain y x where
    "y < length (slots s)" "x < length (slots s ! y)" "t = slots s ! y ! x"
    by blast
  then show ?thesis
    using sheet_invariantD [OF assms(1)] by auto
qed

lemma sheet_invariant_matches:
  assumes "sheet_invariant s" and "y < height s" and "x < width s"
  shows "\<lparr>pos_x = x, pos_y = y\<rparr>
           \<in> position ` set (filter (\<lambda>slot. slot_value slot = v) (concat (slots s)))
         \<longleftrightarrow> slot_value (slots s ! y ! x) = v"
proof
  assume "\<lparr>pos_x = x, pos_y = y\<rparr>
           \<in> position ` set (filter (\<lambda>slot. slot_value slot = v) (concat (slots s)))"
  then obtain t where m: "t \<in> set (filter (\<lambda>slot. slot_value slot = v) (concat (slots s)))"
    and "position t = \<lparr>pos_x = x, pos_y = y\<rparr>"
    by (metis imageE)
  then have t: "t \<in> set (concat (slots s))" "slot_value t = v"
    "position t = \<lparr>pos_x = x, pos_y = y\<rparr>"
    by simp_all
  from sheet_invariant_slot [OF assms(1) t(1)] t(3) have "t = slots s ! y ! x"
    by auto
  with t(2) show "slot_value (slots s ! y ! x) = v" by simp
next
  assume v: "slot_value (slots s ! y ! x) = v"
  have "y < length (slots s)" "x < length (slots s ! y)"
    using assms(2,3) sheet_invariantD(1,2) [OF assms(1)] by simp_all
  then have "slots s ! y ! x \<in> set (concat (slots s))"
    unfolding in_concat_nth by blast
  moreover have "position (slots s ! y ! x) = \<lparr>pos_x = x, pos_y = y\<rparr>"
    using assms by (simp add: sheet_invariantD)
  ultimately show "\<lparr>pos_x = x, pos_y = y\<rparr>
           \<in> position ` set (filter (\<lambda>slot. slot_value slot = v) (concat (slots s)))"
    using v by force
qed

lemma punch_invariant_sheet:
  assumes "sheet_invariant s"
  shows "punch s h = (Inr (s\<lparr>slots := map (map (punch_value (slot_value h))) (slots s)\<rparr>),
                      s\<lparr>slots := map (map (punch_value (slot_value h))) (slots s)\<rparr>)"
proof -
  let ?v = "slot_value h"
  let ?ts = "filter (\<lambda>slot. slot_value slot = ?v) (concat (slots s))"
  note inv = sheet_invariantD [OF assms]
  have "\<forall>t \<in> set ?ts. pos_y (position t) < length (slots s) \<and>
          pos_x (position t) < length (slots s ! pos_y (position t))"
  proof
    fix t assume "t \<in> set ?ts"
    then have "t \<in> set (concat (slots s))" by simp
    from sheet_invariant_slot [OF assms this]
    show "pos_y (position t) < length (slots s) \<and>
          pos_x (position t) < length (slots s ! pos_y (position t))"
      using inv by auto
  qed
  from punch_each_cells [OF this] obtain s' where
    p: "punch_each ?ts s = (Inr (), s')"
    and f: "width s' = width s" "height s' = height s" "sheet_length s' = sheet_length s"
       "initialized s' = initialized s"
    and l: "length (slots s') = length (slots s)"
    and c: "\<forall>y < length (slots s). length (slots s' ! y) = length (slots s ! y) \<and>
        (\<forall>x < length (slots s ! y).
           slots s' ! y ! x
             = (if \<lparr>pos_x = x, pos_y = y\<rparr> \<in> position ` set ?ts
                then (slots s ! y ! x)\<lparr>punched := True\<rparr> else slots s ! y ! x))"
    by blast
  have "slots s' = map (map (punch_value ?v)) (slots s)"
  proof (rule nth_equalityI)
    show "length (slots s') = length (map (map (punch_value ?v)) (slots s))"
      using l by simp
  next
    fix y assume "y < length (slots s')"
    with l inv(1) have y: "y < height s" by simp
    show "slots s' ! y = map (map (punch_value ?v)) (slots s) ! y"
    proof (rule nth_equalityI)
      show "length (slots s' ! y) = length (map (map (punch_value ?v)) (slots s) ! y)"
        using c y inv(1) by simp
    next
      fix x assume "x < length (slots s' ! y)"
      with c y inv have x: "x < width s" by simp
      have "slots s' ! y ! x
             = (if \<lparr>pos_x = x, pos_y = y\<rparr> \<in> position ` set ?ts
                then (slots s ! y ! x)\<lparr>punched := True\<rparr> else slots s ! y ! x)"
        using c x y inv by simp
      then show "slots s' ! y ! x = map (map (punch_value ?v)) (slots s) ! y ! x"
        using x y inv(1) inv(2) [OF y] sheet_invariant_matches [OF assms y x, of ?v]
        by (simp add: punch_value_def)
    qed
  qed
  with f have "s' = s\<lparr>slots := map (map (punch_value ?v)) (slots s)\<rparr>"
    by (intro BingoSheet.equality) simp_all
  with p show ?thesis
    by (simp add: punch_def save_def)
qed

lemma sheet_invariant_punch_value:
  assumes "sheet_invariant s"
  shows "sheet_invariant (s\<lparr>slots := map (map (punch_value v)) (slots s)\<rparr>)"
  using sheet_invariantD [OF assms]
  by (simp add: sheet_invariant_def punch_value_def)

lemma punch_value_twice: "punch_value v (punch_value v slot) = punch_value v slot"
  by (simp add: punch_value_def)

lemma example_sheet_invariant: "sheet_invariant example_sheet"
  by code_simp

text \<open>
  C3. On a sheet that satisfies the invariant, \<open>punch\<close> returns the sheet in which every
  slot whose value is that of the slot passed in has \<open>punched\<close> set, and every other slot
  is as before. So each cell that holds the value is punched, wherever it is in the grid.
\<close>

theorem punch_all_matches:
  assumes "sheet_invariant s"
  shows "\<exists>s'. punch s h = (Inr s', s') \<and>
           slots s' = map (map (punch_value (slot_value h))) (slots s) \<and>
           (\<forall>y < height s. \<forall>x < width s.
              slot_value (slots s ! y ! x) = slot_value h \<longrightarrow> punched (slots s' ! y ! x))"
proof -
  let ?s' = "s\<lparr>slots := map (map (punch_value (slot_value h))) (slots s)\<rparr>"
  have "punched (slots ?s' ! y ! x)"
    if "y < height s" "x < width s" "slot_value (slots s ! y ! x) = slot_value h" for y x
    using that sheet_invariantD(1,2) [OF assms]
    by (simp add: punch_value_def)
  with punch_invariant_sheet [OF assms, of h] show ?thesis
    by (intro exI [of _ ?s']) simp
qed

theorem punch_all_matches_witness:
  "sheet_invariant example_sheet \<and>
   slot_value (slots example_sheet ! 1 ! 0) = 2 \<and> slot_value (slots example_sheet ! 1 ! 1) = 2 \<and>
   (\<exists>s'. punch example_sheet (slots example_sheet ! 1 ! 0) = (Inr s', s') \<and>
      punched (slots s' ! 1 ! 0) \<and> punched (slots s' ! 1 ! 1) \<and>
      \<not> punched (slots s' ! 0 ! 0) \<and> \<not> punched (slots s' ! 0 ! 1))"
proof -
  let ?h = "slots example_sheet ! 1 ! 0"
  from punch_all_matches [OF example_sheet_invariant, of ?h] obtain s' where
    p: "punch example_sheet ?h = (Inr s', s')"
    and g: "slots s' = map (map (punch_value (slot_value ?h))) (slots example_sheet)"
    and m: "\<forall>y < height example_sheet. \<forall>x < width example_sheet.
              slot_value (slots example_sheet ! y ! x) = slot_value ?h \<longrightarrow>
              punched (slots s' ! y ! x)"
    by blast
  have v: "slot_value (slots example_sheet ! 1 ! 0) = 2"
    "slot_value (slots example_sheet ! 1 ! 1) = 2"
    by (simp_all add: example_sheet_def BingoSheet_new_def createSlot_def BingoSlot_new_def
          prize_def)
  have d: "height example_sheet = 2" "width example_sheet = 2"
    by (simp_all add: example_sheet_def BingoSheet_new_def)
  from m v d have "punched (slots s' ! 1 ! 0)" "punched (slots s' ! 1 ! 1)"
    by simp_all
  moreover from g have "\<not> punched (slots s' ! 0 ! 0)" "\<not> punched (slots s' ! 0 ! 1)"
    by (simp_all add: example_sheet_def BingoSheet_new_def createSlot_def BingoSlot_new_def
          prize_def punch_value_def)
  ultimately show ?thesis
    using p v example_sheet_invariant by blast
qed


subsection \<open>Flags are never reset\<close>

lemma flags_kept_refl: "flags_kept s s"
  by (simp add: flags_kept_def)

lemma flags_kept_trans:
  assumes "flags_kept s s'" and "flags_kept s' s''"
  shows "flags_kept s s''"
  using assms unfolding flags_kept_def by auto

lemma flags_kept_set_punched:
  assumes "y < length (slots s)" and "x < length (slots s ! y)"
  shows "flags_kept s
           (s\<lparr>slots := (slots s)[y := (slots s ! y)[x := (slots s ! y ! x)\<lparr>punched := True\<rparr>]]\<rparr>)"
  using assms
  by (simp add: flags_kept_def grid_update_row_length grid_update_nth)

lemma flags_kept_set_bingo:
  assumes "y < length (slots s)" and "x < length (slots s ! y)"
  shows "flags_kept s
           (s\<lparr>slots := (slots s)[y := (slots s ! y)[x := (slots s ! y ! x)\<lparr>bingo := True\<rparr>]]\<rparr>)"
  using assms
  by (simp add: flags_kept_def grid_update_row_length grid_update_nth)

lemma punch_each_flags_kept: "flags_kept s (snd (punch_each ts s))"
proof (induction ts arbitrary: s)
  case Nil
  show ?case by (simp add: flags_kept_refl)
next
  case (Cons t ts)
  let ?x = "pos_x (position t)" and ?y = "pos_y (position t)"
  show ?case
  proof (cases "?y < length (slots s) \<and> ?x < length (slots s ! ?y)")
    case True
    then have "flags_kept s
      (s\<lparr>slots := (slots s)[?y := (slots s ! ?y)[?x := (slots s ! ?y ! ?x)\<lparr>punched := True\<rparr>]]\<rparr>)"
      by (simp add: flags_kept_set_punched)
    from flags_kept_trans [OF this Cons.IH] True show ?thesis
      by (simp add: Let_def)
  next
    case False
    then show ?thesis by (auto simp: Let_def flags_kept_refl)
  qed
qed

lemma markSlotsIfBingo_flags_kept: "flags_kept s (snd (markSlotsIfBingo ts s))"
proof (induction ts arbitrary: s)
  case Nil
  show ?case by (simp add: flags_kept_refl)
next
  case (Cons t ts)
  let ?x = "pos_x (position t)" and ?y = "pos_y (position t)"
  show ?case
  proof (cases "?y < length (slots s) \<and> ?x < length (slots s ! ?y)")
    case True
    then have "flags_kept s
      (s\<lparr>slots := (slots s)[?y := (slots s ! ?y)[?x := (slots s ! ?y ! ?x)\<lparr>bingo := True\<rparr>]]\<rparr>)"
      by (simp add: flags_kept_set_bingo)
    from flags_kept_trans [OF this Cons.IH] True show ?thesis
      by (simp add: Let_def)
  next
    case False
    then show ?thesis by (auto simp: Let_def flags_kept_refl)
  qed
qed

lemma snd_punch:
  "snd (punch s h)
     = snd (punch_each (filter (\<lambda>slot. slot_value slot = slot_value h) (concat (slots s))) s)"
  by (simp add: punch_def save_def split: prod.splits sum.splits)

lemma punch_flags_kept: "flags_kept s (snd (punch s h))"
  by (simp only: snd_punch punch_each_flags_kept)

lemma getBingo_flags_kept: "flags_kept s (snd (getBingo s))"
proof -
  have "flags_kept s s'" if "markSlotsIfBingo ts s = (r, s')" for ts r s'
    using markSlotsIfBingo_flags_kept [of s ts] that by simp
  then show ?thesis
    by (auto simp: getBingo_def Let_def flags_kept_refl split: sum.splits prod.splits)
qed

lemma snd_isBingo: "snd (isBingo s) = snd (getBingo s)"
  by (simp add: isBingo_def split: prod.splits sum.splits)

lemma snd_getDiagonalBingo: "snd (getDiagonalBingo s) = s"
  by (simp add: getDiagonalBingo_def Let_def split: sum.splits)

text \<open>
  C9. No method of the sheet turns a flag from \<open>true\<close> to \<open>false\<close>: whatever the sheet, and
  whether the method returns or throws, the sheet it leaves has the same shape and every
  slot that was punched is punched, every slot that was marked as bingo is marked. This
  holds for two calls of \<open>getBingo\<close> in a row as well.
\<close>

theorem flags_never_reset:
  "flags_kept s (snd (hit s payload)) \<and>
   flags_kept s (snd (punch s h)) \<and>
   flags_kept s (snd (getBingo s)) \<and>
   flags_kept s (snd (isBingo s)) \<and>
   flags_kept s (snd (getHorizontalBingo s)) \<and>
   flags_kept s (snd (getVerticalBingo s)) \<and>
   flags_kept s (snd (getDiagonalBingo s)) \<and>
   flags_kept s (snd (getBingo (snd (getBingo s))))"
proof (intro conjI)
  show "flags_kept s (snd (hit s payload))"
    by (simp add: hit_def flags_kept_refl)
  show "flags_kept s (snd (punch s h))"
    by (rule punch_flags_kept)
  show "flags_kept s (snd (getBingo s))"
    by (rule getBingo_flags_kept)
  show "flags_kept s (snd (isBingo s))"
    by (simp only: snd_isBingo getBingo_flags_kept)
  show "flags_kept s (snd (getHorizontalBingo s))"
    by (simp add: getHorizontalBingo_def flags_kept_refl)
  show "flags_kept s (snd (getVerticalBingo s))"
    by (simp add: getVerticalBingo_def flags_kept_refl)
  show "flags_kept s (snd (getDiagonalBingo s))"
    by (simp only: snd_getDiagonalBingo flags_kept_refl)
  show "flags_kept s (snd (getBingo (snd (getBingo s))))"
    by (rule flags_kept_trans [OF getBingo_flags_kept getBingo_flags_kept])
qed

theorem flags_never_reset_witness:
  "punched (slots example_punched ! 1 ! 0) \<and>
   flags_kept example_punched (snd (getBingo example_punched)) \<and>
   punched (slots (snd (getBingo example_punched)) ! 1 ! 0) \<and>
   bingo (slots (snd (getBingo example_punched)) ! 1 ! 0) \<and>
   flags_kept (snd (getBingo example_punched)) (snd (getBingo (snd (getBingo example_punched)))) \<and>
   bingo (slots (snd (getBingo (snd (getBingo example_punched)))) ! 1 ! 0)"
proof -
  let ?s1 = "example_punched" and ?s2 = "snd (getBingo example_punched)"
  have a: "punched (slots ?s1 ! 1 ! 0)" by code_simp
  have b: "bingo (slots ?s2 ! 1 ! 0)" by code_simp
  have d: "length (slots ?s1) = 2" "length (slots ?s1 ! 1) = 2"
    "length (slots ?s2) = 2" "length (slots ?s2 ! 1) = 2"
    by code_simp+
  from flags_never_reset [of ?s1 "\<lparr>payload_value = 2\<rparr>" "slots example_sheet ! 1 ! 0"]
  have k1: "flags_kept ?s1 ?s2" by blast
  from flags_never_reset [of ?s2 "\<lparr>payload_value = 2\<rparr>" "slots example_sheet ! 1 ! 0"]
  have k2: "flags_kept ?s2 (snd (getBingo ?s2))" by blast
  from k1 a d have "punched (slots ?s2 ! 1 ! 0)"
    by (simp add: flags_kept_def)
  moreover from k2 b d have "bingo (slots (snd (getBingo ?s2)) ! 1 ! 0)"
    by (simp add: flags_kept_def)
  ultimately show ?thesis using a b k1 k2 by blast
qed

subsection \<open>Matching\<close>

lemma concat_nth_rows:
  "\<forall>row \<in> set g. length row = w \<Longrightarrow> y < length g \<Longrightarrow> x < w \<Longrightarrow>
     concat g ! (y * w + x) = g ! y ! x"
proof (induction g arbitrary: y)
  case Nil
  then show ?case by simp
next
  case (Cons r g)
  show ?case
  proof (cases y)
    case 0
    with Cons.prems show ?thesis by (simp add: nth_append)
  next
    case (Suc y')
    have "(r @ concat g) ! (length r + (y' * w + x)) = concat g ! (y' * w + x)"
      by (rule nth_append_length_plus)
    moreover have "length r = w" using Cons.prems(1) by simp
    ultimately have "concat (r # g) ! (Suc y' * w + x) = concat g ! (y' * w + x)"
      by (simp add: add.assoc)
    with Cons Suc show ?thesis by simp
  qed
qed

lemma sheet_invariant_row_major:
  assumes "sheet_invariant s" and "y < height s" and "x < width s"
  shows "concat (slots s) ! (y * width s + x) = slots s ! y ! x"
proof -
  note inv = sheet_invariantD(1,2) [OF assms(1)]
  have "\<forall>row \<in> set (slots s). length row = width s"
    using inv by (auto simp: in_set_conv_nth)
  then show ?thesis
    using assms(2,3) inv(1) by (intro concat_nth_rows) simp_all
qed

text \<open>
  C7. \<open>hit\<close> leaves the sheet as it is, and never throws. It returns the first slot of the
  flattened grid whose value is the payload's: the slot at some index \<open>i\<close> of the
  concatenation of the rows, no slot at a smaller index having that value; it returns
  nothing when no slot of the grid has the value. On a sheet that satisfies the invariant
  the concatenation of the rows is the row-major order: index \<open>y * width + x\<close> is the cell
  at row \<open>y\<close>, column \<open>x\<close>.
\<close>

theorem hit_first_match:
  "snd (hit s payload) = s \<and>
   (case fst (hit s payload) of
      None \<Rightarrow> \<forall>slot \<in> set (concat (slots s)). slot_value slot \<noteq> payload_value payload
    | Some found \<Rightarrow>
        \<exists>i < length (concat (slots s)).
          found = concat (slots s) ! i \<and> slot_value found = payload_value payload \<and>
          (\<forall>j < i. slot_value (concat (slots s) ! j) \<noteq> payload_value payload)) \<and>
   (sheet_invariant s \<longrightarrow>
      (\<forall>y < height s. \<forall>x < width s. concat (slots s) ! (y * width s + x) = slots s ! y ! x))"
proof (intro conjI)
  show "snd (hit s payload) = s" by (simp add: hit_def)
next
  let ?P = "\<lambda>slot. slot_value slot = payload_value payload"
  show "case fst (hit s payload) of
      None \<Rightarrow> \<forall>slot \<in> set (concat (slots s)). slot_value slot \<noteq> payload_value payload
    | Some found \<Rightarrow>
        \<exists>i < length (concat (slots s)).
          found = concat (slots s) ! i \<and> slot_value found = payload_value payload \<and>
          (\<forall>j < i. slot_value (concat (slots s) ! j) \<noteq> payload_value payload)"
  proof (cases "find ?P (concat (slots s))")
    case None
    then have "\<forall>slot \<in> set (concat (slots s)). \<not> ?P slot"
      by (simp only: find_None_iff) blast
    with None show ?thesis by (simp add: hit_def)
  next
    case (Some found)
    then obtain i where "i < length (concat (slots s))" "?P (concat (slots s) ! i)"
      "found = concat (slots s) ! i" "\<forall>j < i. \<not> ?P (concat (slots s) ! j)"
      by (auto simp only: find_Some_iff)
    then have "\<exists>i < length (concat (slots s)).
          found = concat (slots s) ! i \<and> slot_value found = payload_value payload \<and>
          (\<forall>j < i. slot_value (concat (slots s) ! j) \<noteq> payload_value payload)"
      by blast
    with Some show ?thesis by (simp only: hit_def fst_conv option.case)
  qed
next
  show "sheet_invariant s \<longrightarrow>
      (\<forall>y < height s. \<forall>x < width s. concat (slots s) ! (y * width s + x) = slots s ! y ! x)"
    by (simp add: sheet_invariant_row_major)
qed

theorem hit_first_match_witness:
  "snd (hit example_sheet \<lparr>payload_value = 2\<rparr>) = example_sheet \<and>
   fst (hit example_sheet \<lparr>payload_value = 2\<rparr>) = Some (slots example_sheet ! 1 ! 0) \<and>
   (\<exists>i < length (concat (slots example_sheet)).
      slots example_sheet ! 1 ! 0 = concat (slots example_sheet) ! i \<and>
      slot_value (slots example_sheet ! 1 ! 0) = 2 \<and>
      (\<forall>j < i. slot_value (concat (slots example_sheet) ! j) \<noteq> 2)) \<and>
   fst (hit example_sheet \<lparr>payload_value = 7\<rparr>) = None \<and>
   list_all (\<lambda>slot. slot_value slot \<noteq> 7) (concat (slots example_sheet)) \<and>
   sheet_invariant example_sheet \<and>
   concat (slots example_sheet) ! (1 * width example_sheet + 0) = slots example_sheet ! 1 ! 0"
proof -
  have f: "fst (hit example_sheet \<lparr>payload_value = 2\<rparr>) = Some (slots example_sheet ! 1 ! 0)"
    by code_simp
  have n: "fst (hit example_sheet \<lparr>payload_value = 7\<rparr>) = None"
    by code_simp
  have d: "(1::nat) < height example_sheet" "(0::nat) < width example_sheet"
    by code_simp+
  note two = hit_first_match [of example_sheet "\<lparr>payload_value = 2\<rparr>"]
  note seven = hit_first_match [of example_sheet "\<lparr>payload_value = 7\<rparr>"]
  from two have "snd (hit example_sheet \<lparr>payload_value = 2\<rparr>) = example_sheet"
    by blast
  moreover from two f have "\<exists>i < length (concat (slots example_sheet)).
      slots example_sheet ! 1 ! 0 = concat (slots example_sheet) ! i \<and>
      slot_value (slots example_sheet ! 1 ! 0) = 2 \<and>
      (\<forall>j < i. slot_value (concat (slots example_sheet) ! j) \<noteq> 2)"
    by simp
  moreover from seven n
  have "list_all (\<lambda>slot. slot_value slot \<noteq> 7) (concat (slots example_sheet))"
    by (simp add: list_all_iff)
  moreover from two example_sheet_invariant d
  have "concat (slots example_sheet) ! (1 * width example_sheet + 0) = slots example_sheet ! 1 ! 0"
    by blast
  ultimately show ?thesis using f n example_sheet_invariant by blast
qed

subsection \<open>Rows and columns\<close>

lemma every_punched_Some: "every_punched (map Some xs) = Inr (list_all punched xs)"
  by (induction xs) simp_all

lemma horizontal_found:
  assumes "length (slots s) = height s" and "r < height s"
    and "list_all punched (slots s ! r)"
    and "\<forall>r' < r. \<not> list_all punched (slots s ! r')"
  shows "row \<le> r \<Longrightarrow> getHorizontalBingo_loop row s = Inr (slots s ! r)"
proof (induction "r - row" arbitrary: row)
  case 0
  then have "row = r" by simp
  with assms show ?case
    by (subst getHorizontalBingo_loop.simps) simp
next
  case (Suc n)
  then have lt: "row < r" by simp
  with assms(4) have np: "\<not> list_all punched (slots s ! row)" by simp
  from Suc.hyps(2) lt have "getHorizontalBingo_loop (row + 1) s = Inr (slots s ! r)"
    by (intro Suc.hyps(1)) simp_all
  with lt np assms(1,2) show ?case
    by (subst getHorizontalBingo_loop.simps) simp
qed

lemma horizontal_none:
  assumes "length (slots s) = height s"
    and "\<forall>r < height s. \<not> list_all punched (slots s ! r)"
  shows "getHorizontalBingo_loop row s = Inr []"
proof (induction "height s - row" arbitrary: row)
  case 0
  then show ?case
    by (subst getHorizontalBingo_loop.simps) simp
next
  case (Suc n)
  then have lt: "row < height s" by simp
  from Suc.hyps(2) have "getHorizontalBingo_loop (row + 1) s = Inr []"
    by (intro Suc.hyps(1)) simp
  with lt assms show ?case
    by (subst getHorizontalBingo_loop.simps) simp
qed

lemma column_cells:
  assumes "sheet_invariant s" and "c < width s"
  shows "map (\<lambda>row. at_index row (int c)) (slots s) = map Some (column s c)"
proof -
  have "at_index row (int c) = Some (row ! c)" if "row \<in> set (slots s)" for row
  proof -
    from that obtain y where "y < length (slots s)" "row = slots s ! y"
      by (metis in_set_conv_nth)
    with sheet_invariantD(1,2) [OF assms(1)] assms(2) have "c < length row" by simp
    then show ?thesis by (simp add: at_index_def)
  qed
  then show ?thesis by (simp add: column_def)
qed

lemma vertical_found:
  assumes "sheet_invariant s" and "c < width s"
    and "list_all punched (column s c)"
    and "\<forall>c' < c. \<not> list_all punched (column s c')"
  shows "col \<le> c \<Longrightarrow> getVerticalBingo_loop col s = Inr (column s c)"
proof (induction "c - col" arbitrary: col)
  case 0
  then have "col = c" by simp
  with assms(2,3) show ?case
    by (subst getVerticalBingo_loop.simps)
       (simp add: column_cells [OF assms(1)] every_punched_Some comp_def)
next
  case (Suc n)
  then have lt: "col < c" by simp
  with assms(2) have w: "col < width s" by simp
  from lt assms(4) have np: "\<not> list_all punched (column s col)" by simp
  from Suc.hyps(2) lt have "getVerticalBingo_loop (col + 1) s = Inr (column s c)"
    by (intro Suc.hyps(1)) simp_all
  with w np show ?case
    by (subst getVerticalBingo_loop.simps)
       (simp add: column_cells [OF assms(1) w] every_punched_Some)
qed

lemma vertical_none:
  assumes "sheet_invariant s"
    and "\<forall>c < width s. \<not> list_all punched (column s c)"
  shows "getVerticalBingo_loop col s = Inr []"
proof (induction "width s - col" arbitrary: col)
  case 0
  then show ?case
    by (subst getVerticalBingo_loop.simps) simp
next
  case (Suc n)
  then have w: "col < width s" by simp
  from Suc.hyps(2) have "getVerticalBingo_loop (col + 1) s = Inr []"
    by (intro Suc.hyps(1)) simp
  with w assms(2) show ?case
    by (subst getVerticalBingo_loop.simps)
       (simp add: column_cells [OF assms(1) w] every_punched_Some)
qed

text \<open>
  C5. On a sheet that satisfies the invariant, neither scan changes the sheet or throws.
  \<open>getHorizontalBingo\<close> returns row \<open>r\<close> when every slot of row \<open>r\<close> is punched and no
  row before it is complete, and the empty list when no row is complete.
  \<open>getVerticalBingo\<close> returns column \<open>c\<close>, from the top row to the bottom row, when every
  slot of column \<open>c\<close> is punched and no column before it is complete, and the empty list
  when no column is complete.
\<close>

theorem first_complete_row_and_column:
  assumes "sheet_invariant s"
  shows "snd (getHorizontalBingo s) = s \<and> snd (getVerticalBingo s) = s \<and>
    (\<forall>r < height s.
       list_all punched (slots s ! r) \<and> (\<forall>r' < r. \<not> list_all punched (slots s ! r')) \<longrightarrow>
       fst (getHorizontalBingo s) = Inr (slots s ! r)) \<and>
    ((\<forall>r < height s. \<not> list_all punched (slots s ! r)) \<longrightarrow>
       fst (getHorizontalBingo s) = Inr []) \<and>
    (\<forall>c < width s.
       list_all punched (column s c) \<and> (\<forall>c' < c. \<not> list_all punched (column s c')) \<longrightarrow>
       fst (getVerticalBingo s) = Inr (column s c)) \<and>
    ((\<forall>c < width s. \<not> list_all punched (column s c)) \<longrightarrow>
       fst (getVerticalBingo s) = Inr [])"
proof (intro conjI allI impI)
  show "snd (getHorizontalBingo s) = s" by (simp add: getHorizontalBingo_def)
  show "snd (getVerticalBingo s) = s" by (simp add: getVerticalBingo_def)
next
  fix r
  assume "r < height s"
    and "list_all punched (slots s ! r) \<and> (\<forall>r' < r. \<not> list_all punched (slots s ! r'))"
  then show "fst (getHorizontalBingo s) = Inr (slots s ! r)"
    using horizontal_found [OF sheet_invariantD(1) [OF assms], of r 0]
    by (simp add: getHorizontalBingo_def)
next
  assume "\<forall>r < height s. \<not> list_all punched (slots s ! r)"
  then show "fst (getHorizontalBingo s) = Inr []"
    using horizontal_none [OF sheet_invariantD(1) [OF assms], of 0]
    by (simp add: getHorizontalBingo_def)
next
  fix c
  assume "c < width s"
    and "list_all punched (column s c) \<and> (\<forall>c' < c. \<not> list_all punched (column s c'))"
  then show "fst (getVerticalBingo s) = Inr (column s c)"
    using vertical_found [OF assms, of c 0]
    by (simp add: getVerticalBingo_def)
next
  assume "\<forall>c < width s. \<not> list_all punched (column s c)"
  then show "fst (getVerticalBingo s) = Inr []"
    using vertical_none [OF assms, of 0]
    by (simp add: getVerticalBingo_def)
qed

theorem first_complete_row_and_column_witness:
  "sheet_invariant example_punched \<and>
   \<not> list_all punched (slots example_punched ! 0) \<and>
   list_all punched (slots example_punched ! 1) \<and>
   fst (getHorizontalBingo example_punched) = Inr (slots example_punched ! 1) \<and>
   width example_punched = 2 \<and>
   \<not> list_all punched (column example_punched 0) \<and>
   \<not> list_all punched (column example_punched 1) \<and>
   fst (getVerticalBingo example_punched) = Inr [] \<and>
   sheet_invariant example_punched_twice \<and>
   list_all punched (column example_punched_twice 0) \<and>
   fst (getVerticalBingo example_punched_twice) = Inr (column example_punched_twice 0) \<and>
   sheet_invariant example_sheet \<and>
   height example_sheet = 2 \<and>
   \<not> list_all punched (slots example_sheet ! 0) \<and>
   \<not> list_all punched (slots example_sheet ! 1) \<and>
   fst (getHorizontalBingo example_sheet) = Inr []"
proof -
  have i1: "sheet_invariant example_punched" by code_simp
  have i2: "sheet_invariant example_punched_twice" by code_simp
  have h: "height example_punched = 2" "width example_punched = 2"
    "width example_punched_twice = 2" "height example_sheet = 2"
    by code_simp+
  have r0: "\<not> list_all punched (slots example_punched ! 0)" by code_simp
  have r1: "list_all punched (slots example_punched ! 1)" by code_simp
  have c0: "\<not> list_all punched (column example_punched 0)" by code_simp
  have c1: "\<not> list_all punched (column example_punched 1)" by code_simp
  have d0: "list_all punched (column example_punched_twice 0)" by code_simp
  have e0: "\<not> list_all punched (slots example_sheet ! 0)" by code_simp
  have e1: "\<not> list_all punched (slots example_sheet ! 1)" by code_simp
  have lt2: "n = 0 \<or> n = 1" if "n < 2" for n :: nat using that by auto
  have cols: "\<forall>c < width example_punched. \<not> list_all punched (column example_punched c)"
    using c0 c1 lt2 by (auto simp: h)
  have rows: "\<forall>r < height example_sheet. \<not> list_all punched (slots example_sheet ! r)"
    using e0 e1 lt2 by (auto simp: h)
  have before: "\<forall>r' < 1. \<not> list_all punched (slots example_punched ! r')"
    using r0 by simp
  note a = first_complete_row_and_column [OF i1]
  note b = first_complete_row_and_column [OF i2]
  note c = first_complete_row_and_column [OF example_sheet_invariant]
  from a r1 before h have "fst (getHorizontalBingo example_punched) = Inr (slots example_punched ! 1)"
    by simp
  moreover from a cols have "fst (getVerticalBingo example_punched) = Inr []"
    by blast
  moreover from b d0 h
  have "fst (getVerticalBingo example_punched_twice) = Inr (column example_punched_twice 0)"
    by simp
  moreover from c rows have "fst (getHorizontalBingo example_sheet) = Inr []"
    by blast
  ultimately show ?thesis
    using i1 i2 example_sheet_invariant r0 r1 c0 c1 d0 e0 e1 h by simp
qed

subsection \<open>Diagonals\<close>

lemma map_rows_Some:
  assumes "\<And>i. i < length rows \<Longrightarrow> 0 \<le> f i \<and> f i < int (length (rows ! i))"
  shows "map_rows f rows = map (\<lambda>i. Some (rows ! i ! nat (f i))) [0..<length rows]"
proof (rule nth_equalityI)
  show "length (map_rows f rows) = length (map (\<lambda>i. Some (rows ! i ! nat (f i))) [0..<length rows])"
    by (simp add: map_rows_def)
next
  fix i assume "i < length (map_rows f rows)"
  then have i: "i < length rows" by (simp add: map_rows_def)
  with assms [OF i] show "map_rows f rows ! i = map (\<lambda>i. Some (rows ! i ! nat (f i))) [0..<length rows] ! i"
    by (simp add: map_rows_def at_index_def)
qed

lemma backslash_cells:
  assumes "sheet_invariant s" and "width s = height s"
  shows "map_rows (\<lambda>i. int i) (slots s) = map Some (main_diagonal s)"
proof -
  note inv = sheet_invariantD(1,2) [OF assms(1)]
  have "map_rows (\<lambda>i. int i) (slots s)
          = map (\<lambda>i. Some (slots s ! i ! nat (int i))) [0..<length (slots s)]"
    using inv assms(2) by (intro map_rows_Some) simp
  then show ?thesis
    using inv(1) by (simp add: main_diagonal_def comp_def)
qed

lemma slash_cells:
  assumes "sheet_invariant s" and "width s = height s"
  shows "map_rows (\<lambda>i. int (height s) - int i - 1) (slots s) = map Some (anti_diagonal s)"
proof -
  note inv = sheet_invariantD(1,2) [OF assms(1)]
  let ?f = "\<lambda>i. int (height s) - int i - 1"
  have "map_rows ?f (slots s) = map (\<lambda>i. Some (slots s ! i ! nat (?f i))) [0..<length (slots s)]"
    using inv assms(2) by (intro map_rows_Some) auto
  moreover have "nat (?f i) = height s - 1 - i" if "i < height s" for i
    using that by simp
  ultimately show ?thesis
    using inv(1) by (simp add: anti_diagonal_def comp_def)
qed

lemma getDiagonalBingo_square:
  assumes "sheet_invariant s" and "width s = height s"
  shows "fst (getDiagonalBingo s)
         = Inr ((if list_all punched (main_diagonal s) then main_diagonal s else []) @
                (if list_all punched (anti_diagonal s) then anti_diagonal s else []))"
  using assms(2)
  by (simp add: getDiagonalBingo_def Let_def backslash_cells [OF assms] slash_cells [OF assms]
        every_punched_Some comp_def)

lemma distinct_main_diagonal:
  assumes "sheet_invariant s" and "width s = height s"
  shows "distinct (main_diagonal s)"
proof -
  have "map position (main_diagonal s) = map (\<lambda>i. \<lparr>pos_x = i, pos_y = i\<rparr>) [0..<height s]"
    using sheet_invariantD(3) [OF assms(1)] assms(2)
    by (simp add: main_diagonal_def)
  moreover have "distinct (map (\<lambda>i. \<lparr>pos_x = i, pos_y = i\<rparr>) [0..<height s])"
    by (simp add: distinct_map inj_on_def)
  ultimately have "distinct (map position (main_diagonal s))" by simp
  then show ?thesis by (simp add: distinct_map)
qed

lemma distinct_anti_diagonal:
  assumes "sheet_invariant s" and "width s = height s"
  shows "distinct (anti_diagonal s)"
proof -
  have "map position (anti_diagonal s)
          = map (\<lambda>i. \<lparr>pos_x = height s - 1 - i, pos_y = i\<rparr>) [0..<height s]"
    using sheet_invariantD(3) [OF assms(1)] assms(2)
    by (simp add: anti_diagonal_def)
  moreover have "distinct (map (\<lambda>i. \<lparr>pos_x = height s - 1 - i, pos_y = i\<rparr>) [0..<height s])"
    by (simp add: distinct_map inj_on_def)
  ultimately have "distinct (map position (anti_diagonal s))" by simp
  then show ?thesis by (simp add: distinct_map)
qed

lemma center_twice:
  assumes "sheet_invariant s" and "width s = height s" and "odd (height s)"
  shows "count (mset (main_diagonal s @ anti_diagonal s))
           (slots s ! (height s div 2) ! (height s div 2)) = 2"
proof -
  let ?c = "height s div 2"
  from assms(3) have c: "?c < height s" and m: "height s - 1 - ?c = ?c"
    by (auto elim!: oddE)
  have "main_diagonal s ! ?c = slots s ! ?c ! ?c"
    using c by (simp add: main_diagonal_def)
  then have "slots s ! ?c ! ?c \<in> set (main_diagonal s)"
    using c by (metis length_map length_upt main_diagonal_def minus_nat.diff_0 nth_mem)
  then have one: "count (mset (main_diagonal s)) (slots s ! ?c ! ?c) = 1"
    using distinct_main_diagonal [OF assms(1,2)] by (simp add: distinct_count_atmost_1)
  have "anti_diagonal s ! ?c = slots s ! ?c ! ?c"
    using c m by (simp add: anti_diagonal_def)
  then have "slots s ! ?c ! ?c \<in> set (anti_diagonal s)"
    using c by (metis length_map length_upt anti_diagonal_def minus_nat.diff_0 nth_mem)
  then have two: "count (mset (anti_diagonal s)) (slots s ! ?c ! ?c) = 1"
    using distinct_anti_diagonal [OF assms(1,2)] by (simp add: distinct_count_atmost_1)
  from one two show ?thesis by simp
qed

text \<open>
  C4. \<open>getDiagonalBingo\<close> never changes the sheet. When the width differs from the height
  it returns the empty list, whatever is punched. On a square sheet that satisfies the
  invariant it returns the main diagonal \<open>slots[i][i]\<close> if all of it is punched, followed
  by the anti-diagonal \<open>slots[i][len - 1 - i]\<close> if all of it is punched, each tested on
  its own. With an odd side and both diagonals punched the center slot is in the result
  twice.
\<close>

theorem diagonal_bingo:
  "snd (getDiagonalBingo s) = s \<and>
   (width s \<noteq> height s \<longrightarrow> fst (getDiagonalBingo s) = Inr []) \<and>
   (sheet_invariant s \<and> width s = height s \<longrightarrow>
      fst (getDiagonalBingo s)
        = Inr ((if list_all punched (main_diagonal s) then main_diagonal s else []) @
               (if list_all punched (anti_diagonal s) then anti_diagonal s else []))) \<and>
   (sheet_invariant s \<and> width s = height s \<and> odd (height s) \<and>
    list_all punched (main_diagonal s) \<and> list_all punched (anti_diagonal s) \<longrightarrow>
      fst (getDiagonalBingo s) = Inr (main_diagonal s @ anti_diagonal s) \<and>
      count (mset (main_diagonal s @ anti_diagonal s))
        (slots s ! (height s div 2) ! (height s div 2)) = 2)"
proof (intro conjI impI)
  show "snd (getDiagonalBingo s) = s"
    by (rule snd_getDiagonalBingo)
next
  assume "width s \<noteq> height s"
  then show "fst (getDiagonalBingo s) = Inr []"
    by (simp add: getDiagonalBingo_def)
next
  assume "sheet_invariant s \<and> width s = height s"
  then show "fst (getDiagonalBingo s)
        = Inr ((if list_all punched (main_diagonal s) then main_diagonal s else []) @
               (if list_all punched (anti_diagonal s) then anti_diagonal s else []))"
    by (simp add: getDiagonalBingo_square)
next
  assume "sheet_invariant s \<and> width s = height s \<and> odd (height s) \<and>
    list_all punched (main_diagonal s) \<and> list_all punched (anti_diagonal s)"
  then show "fst (getDiagonalBingo s) = Inr (main_diagonal s @ anti_diagonal s)"
    by (simp add: getDiagonalBingo_square)
next
  assume "sheet_invariant s \<and> width s = height s \<and> odd (height s) \<and>
    list_all punched (main_diagonal s) \<and> list_all punched (anti_diagonal s)"
  then show "count (mset (main_diagonal s @ anti_diagonal s))
        (slots s ! (height s div 2) ! (height s div 2)) = 2"
    using center_twice [of s] by blast
qed

theorem diagonal_bingo_witness:
  "sheet_invariant example_diagonals \<and> width example_diagonals = height example_diagonals \<and>
   odd (height example_diagonals) \<and>
   list_all punched (main_diagonal example_diagonals) \<and>
   list_all punched (anti_diagonal example_diagonals) \<and>
   fst (getDiagonalBingo example_diagonals)
     = Inr (main_diagonal example_diagonals @ anti_diagonal example_diagonals) \<and>
   count (mset (main_diagonal example_diagonals @ anti_diagonal example_diagonals))
     (slots example_diagonals ! 1 ! 1) = 2 \<and>
   sheet_invariant example_punched \<and> width example_punched = height example_punched \<and>
   \<not> list_all punched (main_diagonal example_punched) \<and>
   \<not> list_all punched (anti_diagonal example_punched) \<and>
   fst (getDiagonalBingo example_punched) = Inr [] \<and>
   width example_wide \<noteq> height example_wide \<and>
   fst (getDiagonalBingo example_wide) = Inr []"
proof -
  have i: "sheet_invariant example_diagonals" by code_simp
  have q: "width example_diagonals = height example_diagonals" by code_simp
  have h: "height example_diagonals = 3" by code_simp
  have p: "list_all punched (main_diagonal example_diagonals)"
    "list_all punched (anti_diagonal example_diagonals)"
    by code_simp+
  have i2: "sheet_invariant example_punched" by code_simp
  have q2: "width example_punched = height example_punched" by code_simp
  have p2: "\<not> list_all punched (main_diagonal example_punched)"
    "\<not> list_all punched (anti_diagonal example_punched)"
    by code_simp+
  have w: "width example_wide \<noteq> height example_wide" by code_simp
  note a = diagonal_bingo [of example_diagonals]
  note b = diagonal_bingo [of example_punched]
  note c = diagonal_bingo [of example_wide]
  from a i q h p have "fst (getDiagonalBingo example_diagonals)
     = Inr (main_diagonal example_diagonals @ anti_diagonal example_diagonals)"
    by simp
  moreover from a i q h p
  have "count (mset (main_diagonal example_diagonals @ anti_diagonal example_diagonals))
         (slots example_diagonals ! (height example_diagonals div 2)
            ! (height example_diagonals div 2)) = 2"
    by simp
  then have "count (mset (main_diagonal example_diagonals @ anti_diagonal example_diagonals))
     (slots example_diagonals ! 1 ! 1) = 2"
    by (simp add: h)
  moreover from b i2 q2 p2 have "fst (getDiagonalBingo example_punched) = Inr []"
    by simp
  moreover from c w have "fst (getDiagonalBingo example_wide) = Inr []"
    by blast
  ultimately show ?thesis
    using i q h p i2 q2 p2 w by simp
qed

subsection \<open>Every sheet the program builds satisfies the invariant\<close>

lemma getShuffledListWithLength_loop_length:
  assumes "getShuffledListWithLength_loop arr len dest rnd k = Some r"
  shows "len \<le> length (fst r)"
  by (rule getShuffledListWithLength_loop.raw_induct [OF _ assms])
     (auto split: if_splits)

lemma init_sheet_invariant:
  assumes "init config rnd k now = Some (Inr sheet, arr', k')"
  shows "sheet_invariant sheet"
proof -
  let ?w = "cfg_width (cfg_sheet config)" and ?h = "cfg_height (cfg_sheet config)"
  from assms obtain shuffled a b where
    g: "getShuffledListWithLength (variations (cfg_slot config)) (?w * ?h) rnd k
          = Some (shuffled, a, b)"
    by (auto simp: init_def Let_def split: option.splits)
  then obtain dest where
    "getShuffledListWithLength_loop (variations (cfg_slot config)) (?w * ?h) [] rnd k
       = Some (dest, a, b)" and "shuffled = take (?w * ?h) dest"
    by (auto simp: getShuffledListWithLength_def split: option.splits)
  with getShuffledListWithLength_loop_length [OF this(1)]
  have "length shuffled = ?w * ?h" by simp
  from init_generated_grid [OF g this, of now] assms
  have "sheet = BingoSheet_new ?w ?h (generated_grid ?w ?h shuffled (?w * ?h)) now"
    by simp
  then show ?thesis by (simp only: sheet_invariant_generated)
qed

lemma punch_sheet_invariant: "sheet_invariant s \<Longrightarrow> sheet_invariant (snd (punch s h))"
  by (simp add: punch_invariant_sheet sheet_invariant_punch_value)

lemma sheet_invariant_set_bingo:
  assumes "sheet_invariant s" and "y < length (slots s)" and "x < length (slots s ! y)"
  shows "sheet_invariant
           (s\<lparr>slots := (slots s)[y := (slots s ! y)[x := (slots s ! y ! x)\<lparr>bingo := True\<rparr>]]\<rparr>)"
  using assms
  by (simp add: sheet_invariant_def grid_update_row_length grid_update_nth)

lemma markSlotsIfBingo_sheet_invariant:
  "sheet_invariant s \<Longrightarrow> sheet_invariant (snd (markSlotsIfBingo ts s))"
proof (induction ts arbitrary: s)
  case Nil
  then show ?case by simp
next
  case (Cons t ts)
  let ?x = "pos_x (position t)" and ?y = "pos_y (position t)"
  show ?case
  proof (cases "?y < length (slots s) \<and> ?x < length (slots s ! ?y)")
    case True
    with Cons.prems have "sheet_invariant
      (s\<lparr>slots := (slots s)[?y := (slots s ! ?y)[?x := (slots s ! ?y ! ?x)\<lparr>bingo := True\<rparr>]]\<rparr>)"
      by (simp add: sheet_invariant_set_bingo)
    from Cons.IH [OF this] True show ?thesis
      by (simp add: Let_def)
  next
    case False
    with Cons.prems show ?thesis by (auto simp: Let_def)
  qed
qed

lemma getBingo_sheet_invariant: "sheet_invariant s \<Longrightarrow> sheet_invariant (snd (getBingo s))"
proof -
  assume inv: "sheet_invariant s"
  have "sheet_invariant s'" if "markSlotsIfBingo ts s = (r, s')" for ts r s'
    using markSlotsIfBingo_sheet_invariant [OF inv, of ts] that by simp
  with inv show ?thesis
    by (auto simp: getBingo_def Let_def split: sum.splits prod.splits)
qed

subsection \<open>Punching twice\<close>

lemma punch_each_positions:
  "map position ts = map position ts' \<Longrightarrow> punch_each ts s = punch_each ts' s"
proof (induction ts arbitrary: ts' s)
  case Nil
  then show ?case by simp
next
  case (Cons t ts)
  then obtain t' rest where ts': "ts' = t' # rest" and p: "position t' = position t"
    and m: "map position ts = map position rest"
    by (cases ts') auto
  from Cons.IH [OF m] show ?case
    by (simp add: ts' p Let_def)
qed

lemma layout_update:
  assumes "y < length g" and "x < length (g ! y)" and "f c = f (g ! y ! x)"
  shows "map (map f) (g[y := (g ! y)[x := c]]) = map (map f) g"
proof (rule nth_equalityI)
  show "length (map (map f) (g[y := (g ! y)[x := c]])) = length (map (map f) g)"
    by simp
next
  fix i assume "i < length (map (map f) (g[y := (g ! y)[x := c]]))"
  then have i: "i < length g" by simp
  have "map f (g[y := (g ! y)[x := c]] ! i) = map f (g ! i)"
  proof (rule nth_equalityI)
    show "length (map f (g[y := (g ! y)[x := c]] ! i)) = length (map f (g ! i))"
      by (simp add: grid_update_row_length)
  next
    fix j assume "j < length (map f (g[y := (g ! y)[x := c]] ! i))"
    then have j: "j < length (g ! i)" by (simp add: grid_update_row_length)
    have "f (g[y := (g ! y)[x := c]] ! i ! j) = f (g ! i ! j)"
      using assms by (simp add: grid_update_nth)
    then show "map f (g[y := (g ! y)[x := c]] ! i) ! j = map f (g ! i) ! j"
      using j by (simp add: grid_update_row_length)
  qed
  then show "map (map f) (g[y := (g ! y)[x := c]]) ! i = map (map f) g ! i"
    using i by simp
qed

lemma punch_each_layout:
  "map (map (\<lambda>t. (slot_value t, position t))) (slots (snd (punch_each ts s)))
     = map (map (\<lambda>t. (slot_value t, position t))) (slots s)"
proof (induction ts arbitrary: s)
  case Nil
  then show ?case by simp
next
  case (Cons t ts)
  let ?x = "pos_x (position t)" and ?y = "pos_y (position t)"
  let ?f = "\<lambda>t. (slot_value t, position t)"
  show ?case
  proof (cases "?y < length (slots s) \<and> ?x < length (slots s ! ?y)")
    case True
    let ?s1 = "s\<lparr>slots := (slots s)[?y := (slots s ! ?y)[?x := (slots s ! ?y ! ?x)\<lparr>punched := True\<rparr>]]\<rparr>"
    have "map (map ?f) ((slots s)[?y := (slots s ! ?y)[?x := (slots s ! ?y ! ?x)\<lparr>punched := True\<rparr>]])
            = map (map ?f) (slots s)"
      using True by (intro layout_update) simp_all
    then have "map (map ?f) (slots ?s1) = map (map ?f) (slots s)"
      by simp
    with Cons.IH [of ?s1] True show ?thesis
      by (simp add: Let_def)
  next
    case False
    then show ?thesis by (auto simp: Let_def)
  qed
qed

lemma targets_flat:
  "map position (filter (\<lambda>t. slot_value t = v) xs)
     = map snd (filter (\<lambda>p. fst p = v) (map (\<lambda>t. (slot_value t, position t)) xs))"
  by (induction xs) simp_all

lemma targets_layout:
  "map position (filter (\<lambda>t. slot_value t = v) (concat g))
     = map snd (filter (\<lambda>p. fst p = v) (concat (map (map (\<lambda>t. (slot_value t, position t))) g)))"
  by (simp only: targets_flat map_concat)

lemma punch_each_again: "punch_each ts (snd (punch_each ts s)) = punch_each ts s"
proof (induction ts arbitrary: s)
  case Nil
  show ?case by simp
next
  case (Cons t ts)
  let ?x = "pos_x (position t)" and ?y = "pos_y (position t)"
  show ?case
  proof (cases "?y < length (slots s) \<and> ?x < length (slots s ! ?y)")
    case False
    then show ?thesis by (auto simp: Let_def)
  next
    case True
    let ?s1 = "s\<lparr>slots := (slots s)[?y := (slots s ! ?y)[?x := (slots s ! ?y ! ?x)\<lparr>punched := True\<rparr>]]\<rparr>"
    let ?s' = "snd (punch_each ts ?s1)"
    have first: "punch_each (t # ts) s = punch_each ts ?s1"
      using True by (simp add: Let_def)
    have y1: "?y < length (slots ?s1)" and x1: "?x < length (slots ?s1 ! ?y)"
      and p1: "punched (slots ?s1 ! ?y ! ?x)"
      using True by simp_all
    have k: "flags_kept ?s1 ?s'" by (rule punch_each_flags_kept)
    from k y1 have y': "?y < length (slots ?s')"
      unfolding flags_kept_def by simp
    from k y1 x1 have x': "?x < length (slots ?s' ! ?y)"
      unfolding flags_kept_def by simp
    from k y1 x1 p1 have "punched (slots ?s' ! ?y ! ?x)"
      unfolding flags_kept_def by simp
    then have "(slots ?s' ! ?y ! ?x)\<lparr>punched := True\<rparr> = slots ?s' ! ?y ! ?x"
      by simp
    then have "(slots ?s')[?y := (slots ?s' ! ?y)[?x := (slots ?s' ! ?y ! ?x)\<lparr>punched := True\<rparr>]]
                 = slots ?s'"
      by (simp only: list_update_id)
    then have "?s'\<lparr>slots := (slots ?s')[?y := (slots ?s' ! ?y)[?x := (slots ?s' ! ?y ! ?x)\<lparr>punched := True\<rparr>]]\<rparr>
                 = ?s'"
      by simp
    with y' x' have "punch_each (t # ts) ?s' = punch_each ts ?s'"
      by (simp add: Let_def)
    also have "\<dots> = punch_each ts ?s1" by (rule Cons.IH)
    finally show ?thesis unfolding first .
  qed
qed

lemma punch_again:
  assumes "slot_value h' = slot_value h"
  shows "punch (snd (punch s h)) h' = punch s h"
proof -
  let ?v = "slot_value h"
  let ?ts = "filter (\<lambda>slot. slot_value slot = ?v) (concat (slots s))"
  let ?s' = "snd (punch_each ?ts s)"
  let ?ts' = "filter (\<lambda>slot. slot_value slot = ?v) (concat (slots ?s'))"
  have "map position ?ts' = map position ?ts"
    by (simp only: targets_layout punch_each_layout)
  then have "punch_each ?ts' ?s' = punch_each ?ts ?s'"
    by (rule punch_each_positions)
  also have "\<dots> = punch_each ?ts s" by (rule punch_each_again)
  finally have e: "punch_each ?ts' ?s' = punch_each ?ts s" .
  have "punch ?s' h' = punch s h"
    unfolding punch_def assms e ..
  then show ?thesis by (simp only: snd_punch)
qed

text \<open>
  C6. Punching a value a second time changes nothing. For every sheet, and every two slots
  \<open>h\<close> and \<open>h'\<close> with the same value, \<open>punch h'\<close> on the sheet that \<open>punch h\<close> has left
  gives what \<open>punch h\<close> gave and leaves that sheet as it is, flag for flag; this holds as
  well when \<open>punch\<close> throws. On a sheet that satisfies the invariant \<open>punch\<close> returns, so
  both calls return the same sheet.
\<close>

theorem punch_idempotent:
  "(slot_value h' = slot_value h \<longrightarrow> punch (snd (punch s h)) h' = punch s h) \<and>
   (sheet_invariant s \<and> slot_value h' = slot_value h \<longrightarrow>
      (\<exists>s'. punch s h = (Inr s', s') \<and> punch s' h' = (Inr s', s')))"
proof (intro conjI impI)
  assume "slot_value h' = slot_value h"
  then show "punch (snd (punch s h)) h' = punch s h"
    by (rule punch_again)
next
  assume a: "sheet_invariant s \<and> slot_value h' = slot_value h"
  let ?s' = "s\<lparr>slots := map (map (punch_value (slot_value h))) (slots s)\<rparr>"
  from a have p: "punch s h = (Inr ?s', ?s')"
    by (simp add: punch_invariant_sheet)
  from a have "punch (snd (punch s h)) h' = punch s h"
    by (simp add: punch_again)
  with p have "punch ?s' h' = (Inr ?s', ?s')"
    by simp
  with p show "\<exists>s'. punch s h = (Inr s', s') \<and> punch s' h' = (Inr s', s')"
    by blast
qed

theorem punch_idempotent_witness:
  "sheet_invariant example_sheet \<and>
   slot_value (slots example_punched ! 1 ! 1) = slot_value (slots example_sheet ! 1 ! 0) \<and>
   punch example_punched (slots example_punched ! 1 ! 1)
     = punch example_sheet (slots example_sheet ! 1 ! 0) \<and>
   (\<exists>s'. punch example_sheet (slots example_sheet ! 1 ! 0) = (Inr s', s') \<and>
      punch s' (slots example_punched ! 1 ! 1) = (Inr s', s'))"
proof -
  let ?h = "slots example_sheet ! 1 ! 0" and ?h' = "slots example_punched ! 1 ! 1"
  have v: "slot_value ?h' = slot_value ?h" by code_simp
  note t = punch_idempotent [of ?h' ?h example_sheet]
  from t v have "punch (snd (punch example_sheet ?h)) ?h' = punch example_sheet ?h"
    by blast
  then have "punch example_punched ?h' = punch example_sheet ?h"
    by (simp only: example_punched_def)
  moreover from t v example_sheet_invariant
  have "\<exists>s'. punch example_sheet ?h = (Inr s', s') \<and> punch s' ?h' = (Inr s', s')"
    by blast
  ultimately show ?thesis
    using v example_sheet_invariant by blast
qed

end
